theory Spec2Isabelle
  imports Main "HOL-Library.Word"
begin

unbundle bit_operations_syntax

section \<open>Words, bytes and typed arrays\<close>

text \<open>
  A \<open>Uint32Array\<close> element is a 32-bit word and a \<open>Uint8Array\<close> element a byte.
  The contents of a \<open>Uint32Array\<close> are a list of words.  JavaScript numbers that hold
  lengths, offsets and counters are natural numbers; \<open>cvStackLen\<close> is an integer, because
  \<open>popCv\<close> decrements it without a test.

  A \<open>Uint8Array\<close> is a view: the model keeps the bytes the view holds and the offset of
  the view inside its \<open>ArrayBuffer\<close>, which decides whether a \<open>Uint32Array\<close> can be laid
  over it.
\<close>

type_synonym u8 = "8 word"
type_synonym u32 = "32 word"

record Uint8Array =
  byteOffset :: nat
  bytes :: "u8 list"

datatype error = RangeError | KeyLengthError

text \<open>
  \<open>utils.ts\<close> computes \<open>IS_LITTLE_ENDIAN\<close> once, when the module is loaded.  The model
  is of a little-endian platform, the one the specification assumes.
\<close>

definition IS_LITTLE_ENDIAN :: bool where
  "IS_LITTLE_ENDIAN = True"

text \<open>
  \<open>input[i]\<close> inside a bitwise expression or stored into a typed array: an index outside
  the array reads \<open>undefined\<close>, which both contexts turn into 0.
\<close>

definition byte_at :: "Uint8Array \<Rightarrow> nat \<Rightarrow> u8" where
  "byte_at input i = (if i < length (bytes input) then bytes input ! i else 0)"

text \<open>
  \<open>input[off] | (input[off + 1] << 8) | (input[off + 2] << 16) | (input[off + 3] << 24)\<close>,
  stored into a \<open>Uint32Array\<close>.
\<close>

definition le_word :: "Uint8Array \<Rightarrow> nat \<Rightarrow> u32" where
  "le_word input off =
     ucast (byte_at input off) OR push_bit 8 (ucast (byte_at input (off + 1)))
       OR push_bit 16 (ucast (byte_at input (off + 2)))
       OR push_bit 24 (ucast (byte_at input (off + 3)))"

text \<open>
  \<open>new Uint32Array(input.buffer, input.byteOffset + off, n)\<close> on a little-endian
  platform.  The constructor throws a \<open>RangeError\<close> when the start offset is not a
  multiple of 4, and when the view would leave the buffer; the model knows the buffer only
  as far as the byte array reaches.
\<close>

definition uint32_view :: "Uint8Array \<Rightarrow> nat \<Rightarrow> nat \<Rightarrow> error + u32 list" where
  "uint32_view input off n =
     (if (byteOffset input + off) mod 4 \<noteq> 0 then Inl RangeError
      else if length (bytes input) < off + 4 * n then Inl RangeError
      else Inr (map (\<lambda>i. le_word input (off + 4 * i)) [0..<n]))"

text \<open>\<open>readLittleEndianWordsFull\<close> of \<open>utils.ts\<close>: 16 words, byte by byte.\<close>

definition readLittleEndianWordsFull :: "Uint8Array \<Rightarrow> nat \<Rightarrow> u32 list" where
  "readLittleEndianWordsFull input offset = map (\<lambda>i. le_word input (offset + 4 * i)) [0..<16]"

text \<open>Byte \<open>k\<close> (0 to 3) of a word: \<open>(w >>> (k << 3)) & 0xff\<close>.\<close>

definition word_byte :: "u32 \<Rightarrow> nat \<Rightarrow> u8" where
  "word_byte w k = ucast (drop_bit (8 * k) w AND 0xff)"

section \<open>Constants\<close>

text \<open>
  Modelled from the spec: \<open>constants.js\<close>, which the hasher and the one-shot functions
  import, is not among the sources.  The values are the bit-exact constants of the
  specification's section on external interfaces; \<open>MAX_DEPTH\<close> is the stack bound of the
  data model.
\<close>

definition IV :: "u32 list" where
  "IV = [0x6A09E667, 0xBB67AE85, 0x3C6EF372, 0xA54FF53A,
         0x510E527F, 0x9B05688C, 0x1F83D9AB, 0x5BE0CD19]"

definition CHUNK_START :: u32 where "CHUNK_START = 1"
definition CHUNK_END :: u32 where "CHUNK_END = 2"
definition PARENT :: u32 where "PARENT = 4"
definition ROOT :: u32 where "ROOT = 8"
definition KEYED_HASH :: u32 where "KEYED_HASH = 16"
definition DERIVE_KEY_CONTEXT :: u32 where "DERIVE_KEY_CONTEXT = 32"
definition DERIVE_KEY_MATERIAL :: u32 where "DERIVE_KEY_MATERIAL = 64"

definition BLOCK_LEN :: nat where "BLOCK_LEN = 64"
definition CHUNK_LEN :: nat where "CHUNK_LEN = 1024"
definition OUT_LEN :: nat where "OUT_LEN = 32"
definition KEY_LEN :: nat where "KEY_LEN = 32"
definition MAX_DEPTH :: nat where "MAX_DEPTH = 54"

section \<open>Message schedule\<close>

text \<open>\<open>MSG_PERMUTATION\<close> and \<open>computePermutations\<close> of \<open>microbench/09-wasm-simd.ts\<close>.\<close>

definition MSG_PERMUTATION :: "nat list" where
  "MSG_PERMUTATION = [2, 6, 3, 10, 7, 0, 4, 13, 1, 11, 12, 5, 9, 14, 15, 8]"

text \<open>\<open>MSG_PERMUTATION.map((p) => current[p])\<close>\<close>

definition permute :: "nat list \<Rightarrow> nat list" where
  "permute current = map (\<lambda>p. current ! p) MSG_PERMUTATION"

text \<open>The loop of \<open>computePermutations\<close>: \<open>n\<close> rounds are still to be pushed.\<close>

fun computePermutations_loop :: "nat \<Rightarrow> nat list \<Rightarrow> nat list list" where
  "computePermutations_loop 0 current = []"
| "computePermutations_loop (Suc n) current = current # computePermutations_loop n (permute current)"

definition computePermutations :: "nat list list" where
  "computePermutations = computePermutations_loop 7 [0..<16]"

text \<open>\<open>MSG_ACCESS_ORDER\<close> of the bytecode generator in \<open>src/index.ts\<close>.\<close>

definition MSG_ACCESS_ORDER :: "nat list" where
  "MSG_ACCESS_ORDER =
    [0, 1, 2, 3, 4, 5, 6, 7, 8, 9, 10, 11, 12, 13, 14, 15,
     2, 6, 3, 10, 7, 0, 4, 13, 1, 11, 12, 5, 9, 14, 15, 8,
     3, 4, 10, 12, 13, 2, 7, 14, 6, 5, 9, 0, 11, 15, 8, 1,
     10, 7, 12, 9, 14, 3, 13, 15, 4, 0, 11, 2, 5, 8, 1, 6,
     12, 13, 9, 11, 15, 10, 14, 8, 7, 2, 5, 3, 0, 1, 6, 4,
     9, 14, 11, 5, 8, 12, 15, 1, 13, 3, 0, 10, 2, 6, 4, 7,
     11, 15, 5, 0, 1, 9, 8, 6, 14, 10, 2, 12, 3, 4, 7, 13]"

text \<open>
  The generators walk \<open>MSG_ACCESS_ORDER\<close> with a running index \<open>msgIdx\<close> that starts at 0
  and grows by 2 with every G: the \<open>j\<close>-th G of round \<open>r\<close> reads the entries
  \<open>16 * r + 2 * j\<close> and \<open>16 * r + 2 * j + 1\<close>.  \<open>round_msg_indices r\<close> lists what the
  eight G of round \<open>r\<close> read, in order.
\<close>

definition round_msg_indices :: "nat \<Rightarrow> nat list" where
  "round_msg_indices r =
     concat (map (\<lambda>j. [MSG_ACCESS_ORDER ! (16 * r + 2 * j), MSG_ACCESS_ORDER ! (16 * r + 2 * j + 1)])
       [0..<8])"

text \<open>The rows R0 to R6 as the specification prints them.\<close>

definition spec_rows :: "nat list list" where
  "spec_rows =
    [[0, 1, 2, 3, 4, 5, 6, 7, 8, 9, 10, 11, 12, 13, 14, 15],
     [2, 6, 3, 10, 7, 0, 4, 13, 1, 11, 12, 5, 9, 14, 15, 8],
     [3, 4, 10, 12, 13, 2, 7, 14, 6, 5, 9, 0, 11, 15, 8, 1],
     [10, 7, 12, 9, 14, 3, 13, 15, 4, 0, 11, 2, 5, 8, 1, 6],
     [12, 13, 9, 11, 15, 10, 14, 8, 7, 2, 5, 3, 0, 1, 6, 4],
     [9, 14, 11, 5, 8, 12, 15, 1, 13, 3, 0, 10, 2, 6, 4, 7],
     [11, 15, 5, 0, 1, 9, 8, 6, 14, 10, 2, 12, 3, 4, 7, 13]]"

section \<open>The compression function\<close>

text \<open>
  Modelled from the spec: \<open>compress.js\<close> is not among the sources, only its callers are.
  The definitions follow the algorithm of the specification's section on the compression
  function; the mixing function and the round agree with \<open>gNaive\<close> and \<open>roundNaive\<close> of
  the benchmark sources.
\<close>

definition rotr :: "nat \<Rightarrow> u32 \<Rightarrow> u32" where
  "rotr n x = drop_bit n x OR push_bit (32 - n) x"

definition g :: "u32 list \<Rightarrow> nat \<Rightarrow> nat \<Rightarrow> nat \<Rightarrow> nat \<Rightarrow> u32 \<Rightarrow> u32 \<Rightarrow> u32 list" where
  "g state a b c d mx my =
    (let state = state[a := state ! a + state ! b + mx];
         state = state[d := rotr 16 (state ! d XOR state ! a)];
         state = state[c := state ! c + state ! d];
         state = state[b := rotr 12 (state ! b XOR state ! c)];
         state = state[a := state ! a + state ! b + my];
         state = state[d := rotr 8 (state ! d XOR state ! a)];
         state = state[c := state ! c + state ! d]
     in state[b := rotr 7 (state ! b XOR state ! c)])"

text \<open>One round: four G on the columns, four on the diagonals; \<open>p\<close> is the round's row.\<close>

definition round_fn :: "u32 list \<Rightarrow> u32 list \<Rightarrow> nat list \<Rightarrow> u32 list" where
  "round_fn state m p =
    (let state = g state 0 4 8 12 (m ! (p ! 0)) (m ! (p ! 1));
         state = g state 1 5 9 13 (m ! (p ! 2)) (m ! (p ! 3));
         state = g state 2 6 10 14 (m ! (p ! 4)) (m ! (p ! 5));
         state = g state 3 7 11 15 (m ! (p ! 6)) (m ! (p ! 7));
         state = g state 0 5 10 15 (m ! (p ! 8)) (m ! (p ! 9));
         state = g state 1 6 11 12 (m ! (p ! 10)) (m ! (p ! 11));
         state = g state 2 7 8 13 (m ! (p ! 12)) (m ! (p ! 13))
     in g state 3 4 9 14 (m ! (p ! 14)) (m ! (p ! 15)))"

text \<open>
  The initial state: the chaining value, four words of \<open>IV\<close>, the two halves of the
  counter, the block length and the flags.
\<close>

definition compress_init :: "u32 list \<Rightarrow> nat \<Rightarrow> nat \<Rightarrow> u32 \<Rightarrow> u32 list" where
  "compress_init cv counter block_len flags =
     take 8 cv @ take 4 IV @
       [word_of_nat (counter mod 2 ^ 32), word_of_nat (counter div 2 ^ 32),
        word_of_nat block_len, flags]"

definition compress_rounds :: "u32 list \<Rightarrow> u32 list \<Rightarrow> u32 list" where
  "compress_rounds state m = foldl (\<lambda>s p. round_fn s m p) state spec_rows"

text \<open>The feed-forward: 16 output words, of which the first 8 are the chaining value.\<close>

definition compress_out :: "u32 list \<Rightarrow> u32 list \<Rightarrow> u32 list" where
  "compress_out state cv =
     map (\<lambda>i. state ! i XOR state ! (i + 8)) [0..<8] @
     map (\<lambda>i. state ! (i + 8) XOR cv ! i) [0..<8]"

definition compress_words :: "u32 list \<Rightarrow> u32 list \<Rightarrow> nat \<Rightarrow> nat \<Rightarrow> u32 \<Rightarrow> u32 list" where
  "compress_words cv block counter block_len flags =
     compress_out (compress_rounds (compress_init cv counter block_len flags) block) cv"

text \<open>
  An element of a \<open>Uint32Array\<close> read into a 32-bit variable: outside the array it is
  \<open>undefined\<close>, which \<open>| 0\<close> turns into 0.
\<close>

definition words_at :: "u32 list \<Rightarrow> nat \<Rightarrow> nat \<Rightarrow> u32 list" where
  "words_at xs off n = map (\<lambda>i. if off + i < length xs then xs ! (off + i) else 0) [0..<n]"

text \<open>
  \<open>compress(cv, cvOffset, block, blockOffset, out, outOffset, fullOutput, counter,
  blockLen, flags)\<close> as its callers use it: it reads 8 words of \<open>cv\<close> and 16 of \<open>block\<close>
  at the given offsets and writes 16 words to \<open>out\<close> when \<open>fullOutput\<close> is set and 8
  otherwise.  The model returns the words written.
\<close>

definition compress ::
  "u32 list \<Rightarrow> nat \<Rightarrow> u32 list \<Rightarrow> nat \<Rightarrow> bool \<Rightarrow> nat \<Rightarrow> nat \<Rightarrow> u32 \<Rightarrow> u32 list" where
  "compress cv cvOffset block blockOffset fullOutput counter blockLen flags =
     take (if fullOutput then 16 else 8)
       (compress_words (words_at cv cvOffset 8) (words_at block blockOffset 16) counter blockLen flags)"

section \<open>Typed-array primitives\<close>

text \<open>
  Element-wise stores \<open>out[off + i] = ws[i]\<close>: a store outside a typed array is dropped,
  as \<open>list_update\<close> drops it.
\<close>

definition write_words :: "'a list \<Rightarrow> nat \<Rightarrow> 'a list \<Rightarrow> 'a list" where
  "write_words out off ws = foldl (\<lambda>acc i. acc[off + i := ws ! i]) out [0..<length ws]"

text \<open>
  \<open>out.set(src, off)\<close>: a \<open>RangeError\<close> when the source does not fit, the elements
  overwritten otherwise.
\<close>

definition typed_set :: "'a list \<Rightarrow> 'a list \<Rightarrow> nat \<Rightarrow> error + 'a list" where
  "typed_set out src off =
     (if length out < off + length src then Inl RangeError
      else Inr (take off out @ src @ drop (off + length src) out))"

text \<open>
  \<open>out.set(src, off)\<close> on a local buffer that the source always fits: the 16-word
  parent block takes at most 8 words at offset 0 or 8.
\<close>

definition set_words :: "'a list \<Rightarrow> 'a list \<Rightarrow> nat \<Rightarrow> 'a list" where
  "set_words out src off = take off out @ src @ drop (off + length src) out"

text \<open>
  \<open>xs.subarray(b, e)\<close>: a negative index counts from the end, both are clamped to the
  array, and an empty range gives an empty array.
\<close>

definition relative_index :: "nat \<Rightarrow> int \<Rightarrow> nat" where
  "relative_index len i = (if i < 0 then nat (max (int len + i) 0) else min (nat i) len)"

definition subarray :: "'a list \<Rightarrow> int \<Rightarrow> int \<Rightarrow> 'a list" where
  "subarray xs b e =
     take (relative_index (length xs) e - relative_index (length xs) b)
       (drop (relative_index (length xs) b) xs)"

section \<open>ChunkState\<close>

record ChunkState =
  chainingValue :: "u32 list"
  chunkCounter :: nat
  blockWords :: "u32 list"
  blockLen :: nat
  blocksCompressed :: nat
  flags :: u32

text \<open>What \<open>ChunkState.output\<close> and \<open>Hasher.finalizeOutput\<close> return.\<close>

record Output =
  inputCv :: "u32 list"
  blockWords :: "u32 list"
  blockLen :: nat
  counter :: nat
  flags :: u32

definition ChunkState_new :: "u32 list \<Rightarrow> nat \<Rightarrow> u32 \<Rightarrow> ChunkState" where
  "ChunkState_new keyWords' chunkCounter' flags' =
     \<lparr>chainingValue = keyWords', chunkCounter = chunkCounter', blockWords = replicate 16 0,
      blockLen = 0, blocksCompressed = 0, flags = flags'\<rparr>"

definition startFlag :: "ChunkState \<Rightarrow> u32" where
  "startFlag cs = (if blocksCompressed cs = 0 then CHUNK_START else 0)"

text \<open>
  One pass of the byte loop of \<open>ChunkState.update\<close>: the byte goes to position \<open>pos\<close> of
  the block, that is to byte \<open>pos & 3\<close> of word \<open>pos >>> 2\<close>.
\<close>

definition store_byte :: "u32 list \<Rightarrow> nat \<Rightarrow> u8 \<Rightarrow> u32 list" where
  "store_byte bw pos b =
     (let wordIdx = pos div 4; byteIdx = pos mod 4
      in if byteIdx = 0 then bw[wordIdx := ucast b]
         else bw[wordIdx := bw ! wordIdx OR push_bit (8 * byteIdx) (ucast b)])"

definition store_bytes :: "u32 list \<Rightarrow> nat \<Rightarrow> Uint8Array \<Rightarrow> nat \<Rightarrow> nat \<Rightarrow> u32 list" where
  "store_bytes bw blockLen' input inputOffset take' =
     foldl (\<lambda>acc i. store_byte acc (blockLen' + i) (byte_at input (inputOffset + i))) bw [0..<take']"

text \<open>
  The three ways \<open>ChunkState.update\<close> fills the block buffer.  The first one lays a
  \<open>Uint32Array\<close> over the input and has no test of the offset.
\<close>

definition fill_block :: "ChunkState \<Rightarrow> Uint8Array \<Rightarrow> nat \<Rightarrow> nat \<Rightarrow> error + u32 list" where
  "fill_block cs input inputOffset take' =
     (if IS_LITTLE_ENDIAN \<and> ChunkState.blockLen cs = 0 \<and> take' = BLOCK_LEN then
        (case uint32_view input inputOffset 16 of
           Inl e \<Rightarrow> Inl e
         | Inr inputWords \<Rightarrow> typed_set (ChunkState.blockWords cs) inputWords 0)
      else if ChunkState.blockLen cs = 0 \<and> take' = BLOCK_LEN then
        Inr (write_words (ChunkState.blockWords cs) 0 (readLittleEndianWordsFull input inputOffset))
      else Inr (store_bytes (ChunkState.blockWords cs) (ChunkState.blockLen cs) input inputOffset take'))"

text \<open>The head of the loop of \<open>ChunkState.update\<close>: a full buffer is compressed.\<close>

definition compress_full_block :: "ChunkState \<Rightarrow> ChunkState" where
  "compress_full_block cs =
     (if ChunkState.blockLen cs = BLOCK_LEN then
        cs\<lparr>chainingValue :=
             write_words (chainingValue cs) 0
               (compress (chainingValue cs) 0 (ChunkState.blockWords cs) 0 False (chunkCounter cs)
                  BLOCK_LEN (ChunkState.flags cs OR startFlag cs)),
           blocksCompressed := blocksCompressed cs + 1,
           ChunkState.blockLen := 0\<rparr>
      else cs)"

text \<open>
  \<open>ChunkState.update(input, inputOffset, inputLen)\<close>.  \<open>None\<close> stands for a loop that
  never ends, \<open>Some (Inl e)\<close> for an exception, \<open>Some (Inr cs)\<close> for the state on return.
\<close>

partial_function (option) ChunkState_update ::
  "ChunkState \<Rightarrow> Uint8Array \<Rightarrow> nat \<Rightarrow> nat \<Rightarrow> (error + ChunkState) option" where
  "ChunkState_update cs input inputOffset inputLen =
     (if inputLen > 0 then
        (let cs1 = compress_full_block cs;
             want = BLOCK_LEN - ChunkState.blockLen cs1;
             take' = min want inputLen
         in case fill_block cs1 input inputOffset take' of
              Inl e \<Rightarrow> Some (Inl e)
            | Inr bw \<Rightarrow>
                ChunkState_update
                  (cs1\<lparr>ChunkState.blockWords := bw, ChunkState.blockLen := ChunkState.blockLen cs1 + take'\<rparr>)
                  input (inputOffset + take') (inputLen - take'))
      else Some (Inr cs))"

declare ChunkState_update.simps [code]

text \<open>
  \<open>ChunkState.output()\<close> zeroes the words of the buffer behind the bytes in use, in
  place, and returns the parameters of the chunk's last compression.
\<close>

definition zero_pad :: "u32 list \<Rightarrow> nat \<Rightarrow> u32 list" where
  "zero_pad bw usedWords = foldl (\<lambda>acc i. acc[i := 0]) bw [usedWords..<16]"

definition ChunkState_output :: "ChunkState \<Rightarrow> Output \<times> ChunkState" where
  "ChunkState_output cs =
     (let usedWords = (ChunkState.blockLen cs + 3) div 4;
          cs1 = cs\<lparr>ChunkState.blockWords := zero_pad (ChunkState.blockWords cs) usedWords\<rparr>
      in (\<lparr>inputCv = chainingValue cs1, blockWords = ChunkState.blockWords cs1,
           blockLen = ChunkState.blockLen cs1, counter = chunkCounter cs1,
           flags = ChunkState.flags cs1 OR startFlag cs1 OR CHUNK_END\<rparr>, cs1))"

definition len :: "ChunkState \<Rightarrow> nat" where
  "len cs = blocksCompressed cs * BLOCK_LEN + ChunkState.blockLen cs"

section \<open>XofReader\<close>

record XofReader =
  inputCv :: "u32 list"
  blockWords :: "u32 list"
  counter :: nat
  blockLen :: nat
  flags :: u32
  outputBlock :: "u32 list"
  outputBlockOffset :: nat

definition XofReader_new :: "u32 list \<Rightarrow> u32 list \<Rightarrow> nat \<Rightarrow> nat \<Rightarrow> u32 \<Rightarrow> XofReader" where
  "XofReader_new inputCv' blockWords' counter' blockLen' flags' =
     \<lparr>inputCv = inputCv', blockWords = blockWords', counter = counter', blockLen = blockLen',
      flags = flags' OR ROOT, outputBlock = replicate 16 0, outputBlockOffset = 64\<rparr>"

text \<open>
  \<open>writeLittleEndianBytesPartial(words, wordOffset, output, byteOffset, byteCount)\<close> of
  \<open>utils.ts\<close>: the four bytes of each full word, then the one to three bytes left.
\<close>

definition write_word_bytes :: "u8 list \<Rightarrow> nat \<Rightarrow> u32 \<Rightarrow> u8 list" where
  "write_word_bytes output byteOffset' w =
     output[byteOffset' := word_byte w 0, byteOffset' + 1 := word_byte w 1,
            byteOffset' + 2 := word_byte w 2, byteOffset' + 3 := word_byte w 3]"

definition writeLittleEndianBytesPartial ::
  "u32 list \<Rightarrow> nat \<Rightarrow> u8 list \<Rightarrow> nat \<Rightarrow> nat \<Rightarrow> u8 list" where
  "writeLittleEndianBytesPartial words wordOffset output byteOffset' byteCount =
     (let fullWords = byteCount div 4;
          output1 = foldl (\<lambda>acc i. write_word_bytes acc (byteOffset' + 4 * i) (words ! (wordOffset + i)))
                      output [0..<fullWords];
          remaining = byteCount mod 4
      in if remaining > 0 then
           (let w = words ! (wordOffset + fullWords);
                byteOffset1 = byteOffset' + 4 * fullWords;
                output2 = output1[byteOffset1 := word_byte w 0];
                output3 = (if remaining > 1 then output2[byteOffset1 + 1 := word_byte w 1] else output2)
            in if remaining > 2 then output3[byteOffset1 + 2 := word_byte w 2] else output3)
         else output1)"

text \<open>The byte loop of \<open>XofReader.read\<close>, for a position inside a word.\<close>

definition copy_bytes :: "u32 list \<Rightarrow> nat \<Rightarrow> u8 list \<Rightarrow> nat \<Rightarrow> nat \<Rightarrow> u8 list" where
  "copy_bytes outputBlock' outputBlockOffset' output outputOffset toCopy =
     foldl (\<lambda>acc i. acc[outputOffset + i :=
                        word_byte (outputBlock' ! ((outputBlockOffset' + i) div 4))
                          ((outputBlockOffset' + i) mod 4)])
       output [0..<toCopy]"

text \<open>The head of the loop of \<open>XofReader.read\<close>: a used-up block is replaced.\<close>

definition refill :: "XofReader \<Rightarrow> XofReader" where
  "refill r =
     (if outputBlockOffset r \<ge> 64 then
        r\<lparr>outputBlock :=
            write_words (outputBlock r) 0
              (compress (XofReader.inputCv r) 0 (XofReader.blockWords r) 0 True (XofReader.counter r)
                 (XofReader.blockLen r) (XofReader.flags r)),
          XofReader.counter := XofReader.counter r + 1,
          outputBlockOffset := 0\<rparr>
      else r)"

function XofReader_read_loop :: "XofReader \<Rightarrow> u8 list \<Rightarrow> nat \<Rightarrow> nat \<Rightarrow> u8 list \<times> XofReader" where
  "XofReader_read_loop r output outputOffset length' =
     (if outputOffset < length' then
        (let r1 = refill r;
             available = 64 - outputBlockOffset r1;
             toCopy = min available (length' - outputOffset);
             wordOffset = outputBlockOffset r1 div 4;
             byteWithinWord = outputBlockOffset r1 mod 4
         in if byteWithinWord = 0 \<and> toCopy \<ge> 4 then
              (let fullWords = toCopy div 4;
                   bytesCopied = fullWords * 4
               in XofReader_read_loop
                    (r1\<lparr>outputBlockOffset := outputBlockOffset r1 + bytesCopied\<rparr>)
                    (writeLittleEndianBytesPartial (outputBlock r1) wordOffset output outputOffset
                       (fullWords * 4))
                    (outputOffset + bytesCopied) length')
            else
              XofReader_read_loop
                (r1\<lparr>outputBlockOffset := outputBlockOffset r1 + toCopy\<rparr>)
                (copy_bytes (outputBlock r1) (outputBlockOffset r1) output outputOffset toCopy)
                (outputOffset + toCopy) length')
      else (output, r))"
  by pat_completeness auto
termination
proof (relation "measure (\<lambda>(r, out, outputOffset, length'). length' - outputOffset)", goal_cases)
  case 1
  show ?case by simp
next
  case (2 r out outputOffset length' r1 available toCopy wordOffset byteWithinWord fullWords bytesCopied)
  then have "0 < bytesCopied" by (simp add: div_greater_zero_iff)
  with 2(1) show ?case by simp
next
  case (3 r out outputOffset length' r1 available toCopy wordOffset byteWithinWord)
  have "outputBlockOffset (refill r) < 64" by (simp add: refill_def)
  with 3(1,2,3,4) show ?case by (auto simp: min_def)
qed

declare XofReader_read_loop.simps [simp del]

text \<open>\<open>XofReader.read(length)\<close>: the bytes read and the reader afterwards.\<close>

definition XofReader_read :: "XofReader \<Rightarrow> nat \<Rightarrow> u8 list \<times> XofReader" where
  "XofReader_read r length' = XofReader_read_loop r (replicate length' 0) 0 length'"

section \<open>Hasher\<close>

record Hasher =
  chunkState :: ChunkState
  keyWords :: "u32 list"
  cvStack :: "u32 list"
  cvStackLen :: int
  flags :: u32

text \<open>\<open>new Hasher(keyWords?, flags?)\<close>: \<open>IV\<close> and 0 stand in for missing arguments.\<close>

definition Hasher_new :: "u32 list option \<Rightarrow> u32 option \<Rightarrow> Hasher" where
  "Hasher_new keyWords' flags' =
     (let kw = (case keyWords' of Some k \<Rightarrow> k | None \<Rightarrow> IV);
          fl = (case flags' of Some f \<Rightarrow> f | None \<Rightarrow> 0)
      in \<lparr>chunkState = ChunkState_new kw 0 fl, keyWords = kw,
          cvStack = replicate (MAX_DEPTH * 8) 0, cvStackLen = 0, flags = fl\<rparr>)"

text \<open>
  \<open>Hasher.newKeyed(key)\<close>.  On a little-endian platform the key words are read through
  a \<open>Uint32Array\<close> laid over the key.
\<close>

definition newKeyed :: "Uint8Array \<Rightarrow> error + Hasher" where
  "newKeyed key =
     (if length (bytes key) \<noteq> KEY_LEN then Inl KeyLengthError
      else if IS_LITTLE_ENDIAN then
        (case uint32_view key 0 8 of
           Inl e \<Rightarrow> Inl e
         | Inr view \<Rightarrow>
             (case typed_set (replicate 8 0) view 0 of
                Inl e \<Rightarrow> Inl e
              | Inr keyWords' \<Rightarrow> Inr (Hasher_new (Some keyWords') (Some KEYED_HASH))))
      else Inr (Hasher_new (Some (write_words (replicate 8 0) 0 (map (\<lambda>i. le_word key (i * 4)) [0..<8])))
                  (Some KEYED_HASH)))"

text \<open>\<open>pushCv(cv, cvOffset)\<close>: \<open>set\<close> throws when the stack is full or the offset negative.\<close>

definition pushCv :: "Hasher \<Rightarrow> u32 list \<Rightarrow> nat \<Rightarrow> error + Hasher" where
  "pushCv h cv cvOffset =
     (if cvStackLen h < 0 then Inl RangeError
      else case typed_set (cvStack h) (subarray cv (int cvOffset) (int cvOffset + 8))
                  (nat (cvStackLen h * 8)) of
             Inl e \<Rightarrow> Inl e
           | Inr st \<Rightarrow> Inr (h\<lparr>cvStack := st, cvStackLen := cvStackLen h + 1\<rparr>))"

text \<open>\<open>popCv(out, outOffset)\<close>: the hasher and \<open>out\<close> afterwards.  There is no test for an empty stack.\<close>

definition popCv :: "Hasher \<Rightarrow> u32 list \<Rightarrow> nat \<Rightarrow> Hasher \<times> u32 list" where
  "popCv h out outOffset =
     (let h1 = h\<lparr>cvStackLen := cvStackLen h - 1\<rparr>
      in (h1, set_words out (subarray (cvStack h1) (cvStackLen h1 * 8) ((cvStackLen h1 + 1) * 8))
                outOffset))"

text \<open>
  The bitwise operators work on 32 bits.  For a non-negative integer \<open>n\<close>:
  \<open>n >>> k\<close>, and \<open>n & (2 ** j - 1)\<close> for a mask of \<open>j\<close> low bits.
\<close>

definition js_ushr :: "nat \<Rightarrow> nat \<Rightarrow> nat" where
  "js_ushr n k = (n mod 2 ^ 32) div 2 ^ k"

definition js_and_low :: "nat \<Rightarrow> nat \<Rightarrow> nat" where
  "js_and_low n j = (n mod 2 ^ 32) mod 2 ^ j"

text \<open>
  The merge loop of \<open>addChunkCv\<close>.  Its state is the hasher, the two local buffers, the
  pending chaining value with its offset, and \<open>totalChunks\<close>.  After the first pass
  \<open>newCv\<close> is \<open>parentCv\<close> itself.
\<close>

type_synonym merge_state = "Hasher \<times> u32 list \<times> u32 list \<times> u32 list \<times> nat \<times> nat"

definition merge_cond :: "merge_state \<Rightarrow> bool" where
  "merge_cond s = (case s of (h, parentBlock, parentCv, newCv, newCvOffset, totalChunks) \<Rightarrow>
     js_and_low totalChunks 1 = 0)"

definition merge_body :: "merge_state \<Rightarrow> merge_state" where
  "merge_body s = (case s of (h, parentBlock, parentCv, newCv, newCvOffset, totalChunks) \<Rightarrow>
     (let (h1, parentBlock1) = popCv h parentBlock 0;
          parentBlock2 = set_words parentBlock1 (subarray newCv (int newCvOffset) (int newCvOffset + 8)) 8;
          parentCv1 = write_words parentCv 0
            (compress (keyWords h1) 0 parentBlock2 0 False 0 BLOCK_LEN (Hasher.flags h1 OR PARENT))
      in (h1, parentBlock2, parentCv1, parentCv1, 0, js_ushr totalChunks 1)))"

partial_function (option) addChunkCv_loop :: "merge_state \<Rightarrow> merge_state option" where
  "addChunkCv_loop s = (if merge_cond s then addChunkCv_loop (merge_body s) else Some s)"

declare addChunkCv_loop.simps [code]

text \<open>\<open>addChunkCv(newCv, newCvOffset, totalChunks)\<close>; \<open>None\<close> when the merge loop never ends.\<close>

definition addChunkCv :: "Hasher \<Rightarrow> u32 list \<Rightarrow> nat \<Rightarrow> nat \<Rightarrow> (error + Hasher) option" where
  "addChunkCv h newCv newCvOffset totalChunks =
     (case addChunkCv_loop (h, replicate 16 0, replicate 8 0, newCv, newCvOffset, totalChunks) of
        None \<Rightarrow> None
      | Some (h1, parentBlock, parentCv, newCv1, newCvOffset1, totalChunks1) \<Rightarrow>
          Some (pushCv h1 newCv1 newCvOffset1))"

text \<open>
  The head of the loop of \<open>Hasher.update\<close>: the full chunk is closed, its chaining value
  goes to the stack, and the next chunk is opened.
\<close>

definition finish_chunk :: "Hasher \<Rightarrow> (error + Hasher) option" where
  "finish_chunk h =
     (let (output, cs1) = ChunkState_output (chunkState h);
          h1 = h\<lparr>chunkState := cs1\<rparr>;
          chunkCv = write_words (replicate 8 0) 0
            (compress (Output.inputCv output) 0 (Output.blockWords output) 0 False
               (Output.counter output) (Output.blockLen output) (Output.flags output));
          totalChunks = chunkCounter (chunkState h1) + 1
      in case addChunkCv h1 chunkCv 0 totalChunks of
           None \<Rightarrow> None
         | Some (Inl e) \<Rightarrow> Some (Inl e)
         | Some (Inr h2) \<Rightarrow>
             Some (Inr (h2\<lparr>chunkState := ChunkState_new (keyWords h2) totalChunks (Hasher.flags h2)\<rparr>)))"

text \<open>
  One pass of the loop of \<open>Hasher.update\<close>: the hasher afterwards and the number of
  bytes taken.
\<close>

definition update_step :: "Hasher \<Rightarrow> Uint8Array \<Rightarrow> nat \<Rightarrow> nat \<Rightarrow> (error + Hasher \<times> nat) option" where
  "update_step h input inputOffset inputLen =
     (case (if len (chunkState h) = CHUNK_LEN then finish_chunk h else Some (Inr h)) of
        None \<Rightarrow> None
      | Some (Inl e) \<Rightarrow> Some (Inl e)
      | Some (Inr h1) \<Rightarrow>
          (let want = CHUNK_LEN - len (chunkState h1);
               take' = min want inputLen
           in case ChunkState_update (chunkState h1) input inputOffset take' of
                None \<Rightarrow> None
              | Some (Inl e) \<Rightarrow> Some (Inl e)
              | Some (Inr cs) \<Rightarrow> Some (Inr (h1\<lparr>chunkState := cs\<rparr>, take'))))"

partial_function (option) Hasher_update_loop ::
  "Hasher \<Rightarrow> Uint8Array \<Rightarrow> nat \<Rightarrow> nat \<Rightarrow> (error + Hasher) option" where
  "Hasher_update_loop h input inputOffset inputLen =
     (if inputLen > 0 then
        (case update_step h input inputOffset inputLen of
           None \<Rightarrow> None
         | Some (Inl e) \<Rightarrow> Some (Inl e)
         | Some (Inr (h1, take')) \<Rightarrow>
             Hasher_update_loop h1 input (inputOffset + take') (inputLen - take'))
      else Some (Inr h))"

declare Hasher_update_loop.simps [code]

text \<open>\<open>Hasher.update(input)\<close>\<close>

definition Hasher_update :: "Hasher \<Rightarrow> Uint8Array \<Rightarrow> (error + Hasher) option" where
  "Hasher_update h input = Hasher_update_loop h input 0 (length (bytes input))"

text \<open>
  The loop of \<open>finalizeOutput\<close>.  It returns from inside, with the parameters of the root
  compression, when the stack is used up; \<open>None\<close> is the loop left through its condition.
  The loop assigns to \<open>this.cvStackLen\<close>.
\<close>

function finalizeOutput_loop :: "Hasher \<Rightarrow> u32 list \<Rightarrow> u32 list \<Rightarrow> Output option \<times> Hasher" where
  "finalizeOutput_loop h parentBlock cv =
     (if cvStackLen h > 0 then
        (let h1 = h\<lparr>cvStackLen := cvStackLen h - 1\<rparr>;
             parentBlock1 = set_words parentBlock
               (subarray (cvStack h1) (cvStackLen h1 * 8) ((cvStackLen h1 + 1) * 8)) 0;
             parentBlock2 = set_words parentBlock1 cv 8
         in if cvStackLen h1 > 0 then
              finalizeOutput_loop h1 parentBlock2
                (write_words cv 0
                   (compress (keyWords h1) 0 parentBlock2 0 False 0 BLOCK_LEN (Hasher.flags h1 OR PARENT)))
            else
              (Some \<lparr>Output.inputCv = keyWords h1, Output.blockWords = parentBlock2,
                      Output.blockLen = BLOCK_LEN, Output.counter = 0,
                      Output.flags = Hasher.flags h1 OR PARENT\<rparr>, h1))
      else (None, h))"
  by pat_completeness auto
termination
  by (relation "measure (\<lambda>(h, parentBlock, cv). nat (cvStackLen h))") auto

declare finalizeOutput_loop.simps [simp del]

text \<open>\<open>finalizeOutput()\<close>: the output parameters and the hasher afterwards.\<close>

definition finalizeOutput :: "Hasher \<Rightarrow> Output \<times> Hasher" where
  "finalizeOutput h =
     (let (output, cs1) = ChunkState_output (chunkState h);
          h1 = h\<lparr>chunkState := cs1\<rparr>
      in if cvStackLen h1 > 0 then
           (let cv = write_words (replicate 8 0) 0
                  (compress (Output.inputCv output) 0 (Output.blockWords output) 0 False
                     (Output.counter output) (Output.blockLen output) (Output.flags output))
            in case finalizeOutput_loop h1 (replicate 16 0) cv of
                 (Some root, h2) \<Rightarrow> (root, h2)
               | (None, h2) \<Rightarrow> (output, h2))
         else (output, h1))"

text \<open>\<open>finalizeXof()\<close>\<close>

definition finalizeXof :: "Hasher \<Rightarrow> XofReader \<times> Hasher" where
  "finalizeXof h =
     (let (output, h1) = finalizeOutput h
      in (XofReader_new (Output.inputCv output) (Output.blockWords output) (Output.counter output)
            (Output.blockLen output) (Output.flags output), h1))"

text \<open>The 64 bytes of a 16-word array, as \<open>new Uint8Array(outWords.buffer)\<close> shows them.\<close>

definition words_bytes :: "u32 list \<Rightarrow> u8 list" where
  "words_bytes ws = concat (map (\<lambda>w. [word_byte w 0, word_byte w 1, word_byte w 2, word_byte w 3]) ws)"

text \<open>\<open>finalize(outputLength)\<close>: the digest and the hasher afterwards.\<close>

definition Hasher_finalize :: "Hasher \<Rightarrow> nat \<Rightarrow> u8 list \<times> Hasher" where
  "Hasher_finalize h outputLength =
     (let (output, h1) = finalizeOutput h;
          result = replicate outputLength 0
      in if outputLength \<le> 64 then
           (let outWords = write_words (replicate 16 0) 0
                  (compress (Output.inputCv output) 0 (Output.blockWords output) 0 (outputLength > 32)
                     (Output.counter output) (Output.blockLen output) (Output.flags output OR ROOT))
            in if IS_LITTLE_ENDIAN then
                 (set_words result (subarray (words_bytes outWords) 0 (int outputLength)) 0, h1)
               else (writeLittleEndianBytesPartial outWords 0 result 0 outputLength, h1))
         else
           (let (xof, h2) = finalizeXof h1;
                (full, xof1) = XofReader_read xof outputLength
            in (set_words result full 0, h2)))"

text \<open>
  \<open>Hasher.newDeriveKey(context)\<close>, from the UTF-8 bytes of the context string, which
  \<open>encodeUTF8\<close> returns in an array of its own.
\<close>

definition newDeriveKey :: "u8 list \<Rightarrow> (error + Hasher) option" where
  "newDeriveKey contextBytes =
     (case Hasher_update (Hasher_new (Some IV) (Some DERIVE_KEY_CONTEXT))
             \<lparr>byteOffset = 0, bytes = contextBytes\<rparr> of
        None \<Rightarrow> None
      | Some (Inl e) \<Rightarrow> Some (Inl e)
      | Some (Inr contextHasher) \<Rightarrow>
          (let (output, contextHasher1) = finalizeOutput contextHasher;
               contextKey = write_words (replicate 8 0) 0
                 (compress (Output.inputCv output) 0 (Output.blockWords output) 0 False
                    (Output.counter output) (Output.blockLen output) (Output.flags output OR ROOT))
           in Some (Inr (Hasher_new (Some contextKey) (Some DERIVE_KEY_MATERIAL)))))"

section \<open>The one-shot function\<close>

text \<open>
  \<open>hashPureJS\<close> and its helpers in \<open>src/index.ts\<close>.  The module-level buffers
  (\<open>HYPER_CV_STACK\<close>, the reusable blocks and chaining values) are written before they
  are read in every call, so each call starts from zeroed buffers in the model.
\<close>

text \<open>\<open>copyCV8(src, srcOff, dst, dstOff)\<close>: eight element-wise copies.\<close>

definition copyCV8 :: "u32 list \<Rightarrow> nat \<Rightarrow> u32 list \<Rightarrow> nat \<Rightarrow> u32 list" where
  "copyCV8 src srcOff dst dstOff = write_words dst dstOff (words_at src srcOff 8)"

text \<open>\<open>readLittleEndianWordsPartial(input, offset, length, words)\<close> of \<open>utils.ts\<close>.\<close>

definition readLittleEndianWordsPartial :: "Uint8Array \<Rightarrow> nat \<Rightarrow> nat \<Rightarrow> u32 list \<Rightarrow> u32 list" where
  "readLittleEndianWordsPartial input offset length' words =
     (let words0 = map (\<lambda>w. 0) words;
          fullWords = js_ushr length' 2;
          words1 = write_words words0 0 (map (\<lambda>i. le_word input (offset + 4 * i)) [0..<fullWords]);
          offset1 = offset + 4 * fullWords;
          remaining = js_and_low length' 2
      in if remaining > 0 then
           (let word0 = (ucast (byte_at input offset1) :: u32);
                word1 = (if remaining > 1 then word0 OR push_bit 8 (ucast (byte_at input (offset1 + 1)))
                         else word0);
                word2 = (if remaining > 2 then word1 OR push_bit 16 (ucast (byte_at input (offset1 + 2)))
                         else word1)
            in words1[fullWords := word2])
         else words1)"

text \<open>
  The view \<open>new Uint32Array(input.buffer, input.byteOffset + inputOffset, n)\<close> that the
  one-shot functions create after testing the alignment.
\<close>

definition input_words :: "Uint8Array \<Rightarrow> nat \<Rightarrow> nat \<Rightarrow> u32 list" where
  "input_words input inputOffset n = map (\<lambda>i. le_word input (inputOffset + 4 * i)) [0..<n]"

text \<open>
  The block loop of \<open>hashChunkWithWords\<close>: block \<open>blockIdx\<close> of \<open>totalBlocks\<close> is
  compressed into the running chaining value.
\<close>

definition chunk_block_step ::
  "Uint8Array \<Rightarrow> u32 list option \<Rightarrow> nat \<Rightarrow> nat \<Rightarrow> nat \<Rightarrow> nat \<Rightarrow> u32 \<Rightarrow> nat \<Rightarrow> u32 list \<Rightarrow> nat \<Rightarrow> u32 list" where
  "chunk_block_step input inputWords inputOffset remainder totalBlocks chunkCounter' flags' chunkWordOffset
     tempCv blockIdx =
     (let isFirst = (blockIdx = 0);
          isLast = (blockIdx = totalBlocks - 1);
          blockStart = blockIdx * 64;
          blockLen' = (if isLast \<and> remainder > 0 then remainder else BLOCK_LEN);
          blockFlags0 = (if isFirst then flags' OR CHUNK_START else flags');
          blockFlags = (if isLast then blockFlags0 OR CHUNK_END else blockFlags0)
      in if isLast \<and> remainder > 0 then
           write_words tempCv 0
             (compress tempCv 0
                (readLittleEndianWordsPartial input (inputOffset + blockStart) blockLen' (replicate 16 0))
                0 False chunkCounter' blockLen' blockFlags)
         else
           (case inputWords of
              Some ws \<Rightarrow>
                if chunkWordOffset + js_ushr blockStart 2 + 16 \<le> length ws then
                  write_words tempCv 0
                    (compress tempCv 0 ws (chunkWordOffset + js_ushr blockStart 2) False chunkCounter'
                       blockLen' blockFlags)
                else
                  write_words tempCv 0
                    (compress tempCv 0 (write_words (replicate 16 0) 0
                         (readLittleEndianWordsFull input (inputOffset + blockStart)))
                       0 False chunkCounter' blockLen' blockFlags)
            | None \<Rightarrow>
                write_words tempCv 0
                  (compress tempCv 0 (write_words (replicate 16 0) 0
                       (readLittleEndianWordsFull input (inputOffset + blockStart)))
                     0 False chunkCounter' blockLen' blockFlags)))"

text \<open>
  The sixteen compressions of a full chunk read through the word view: block 0 with
  \<open>CHUNK_START\<close>, blocks 1 to 14 with the plain flags, block 15 with \<open>CHUNK_END\<close>.
\<close>

definition full_chunk_cv :: "u32 list \<Rightarrow> nat \<Rightarrow> nat \<Rightarrow> u32 \<Rightarrow> u32 list \<Rightarrow> u32 list" where
  "full_chunk_cv inputWords wordOff chunkCounter' flags' tempCv =
     (let cv0 = write_words tempCv 0
                  (compress tempCv 0 inputWords wordOff False chunkCounter' BLOCK_LEN (flags' OR CHUNK_START));
          cv14 = foldl (\<lambda>cv i. write_words cv 0
                    (compress cv 0 inputWords (wordOff + 16 * i) False chunkCounter' BLOCK_LEN flags'))
                  cv0 [1..<15]
      in write_words cv14 0
           (compress cv14 0 inputWords (wordOff + 16 * 15) False chunkCounter' BLOCK_LEN (flags' OR CHUNK_END)))"

text \<open>\<open>hashChunkWithWords\<close>: the chaining value it stores at \<open>cv[cvOffset..]\<close>.\<close>

definition hashChunkWithWords ::
  "Uint8Array \<Rightarrow> u32 list option \<Rightarrow> nat \<Rightarrow> nat \<Rightarrow> nat \<Rightarrow> u32 \<Rightarrow> u32 list" where
  "hashChunkWithWords input inputWords inputOffset inputLen chunkCounter' flags' =
     (let tempCv = IV;
          fullBlocks = js_ushr inputLen 6;
          remainder = js_and_low inputLen 6;
          chunkWordOffset = js_ushr inputOffset 2
      in if inputWords \<noteq> None \<and> remainder = 0 \<and> inputLen = CHUNK_LEN then
           full_chunk_cv (the inputWords) chunkWordOffset chunkCounter' flags' tempCv
         else
           (let totalBlocks = fullBlocks + (if remainder > 0 then 1 else 0)
            in foldl (chunk_block_step input inputWords inputOffset remainder totalBlocks chunkCounter'
                        flags' chunkWordOffset)
                 tempCv [0..<totalBlocks]))"

text \<open>
  The block loop of \<open>hashChunkRoot\<close>.  The state is the running chaining value and the
  output array; the last block is compressed into the output array, with \<open>ROOT\<close>.
\<close>

definition root_block_step ::
  "Uint8Array \<Rightarrow> u32 list option \<Rightarrow> nat \<Rightarrow> nat \<Rightarrow> nat \<Rightarrow> nat \<Rightarrow> nat \<Rightarrow> u32 \<Rightarrow> bool \<Rightarrow>
   u32 list \<times> u32 list \<Rightarrow> nat \<Rightarrow> u32 list \<times> u32 list" where
  "root_block_step input inputWords inputOffset inputLen remainder totalBlocks chunkCounter' flags' fullOutput
     st blockIdx =
     (case st of (tempCv, out) \<Rightarrow>
       (let isFirst = (blockIdx = 0);
            isLast = (blockIdx = totalBlocks - 1);
            blockStart = blockIdx * 64;
            blockLen' = (if isLast then (if remainder \<noteq> 0 then remainder
                                         else if inputLen > 0 then BLOCK_LEN else 0)
                         else BLOCK_LEN);
            blockFlags0 = (if isFirst then flags' OR CHUNK_START else flags');
            blockFlags = (if isLast then blockFlags0 OR (CHUNK_END OR ROOT) else blockFlags0);
            fromWords = (case inputWords of
                           Some ws \<Rightarrow> \<not> (isLast \<and> remainder > 0) \<and> inputLen \<noteq> 0 \<and>
                                      js_ushr blockStart 2 + 16 \<le> length ws
                         | None \<Rightarrow> False);
            block = (if isLast \<and> remainder > 0 then
                       readLittleEndianWordsPartial input (inputOffset + blockStart) blockLen' (replicate 16 0)
                     else if inputLen = 0 then replicate 16 0
                     else if fromWords then the inputWords
                     else write_words (replicate 16 0) 0
                            (readLittleEndianWordsFull input (inputOffset + blockStart)));
            blockOffset = (if fromWords then js_ushr blockStart 2 else 0);
            ws = compress tempCv 0 block blockOffset (isLast \<and> fullOutput) chunkCounter' blockLen' blockFlags
        in if isLast then (tempCv, write_words out 0 ws) else (write_words tempCv 0 ws, out)))"

text \<open>\<open>hashChunkRoot\<close>: the output array afterwards.\<close>

definition hashChunkRoot ::
  "Uint8Array \<Rightarrow> nat \<Rightarrow> nat \<Rightarrow> nat \<Rightarrow> u32 \<Rightarrow> u32 list \<Rightarrow> bool \<Rightarrow> u32 list" where
  "hashChunkRoot input inputOffset inputLen chunkCounter' flags' out fullOutput =
     (let fullBlocks = js_ushr inputLen 6;
          remainder = js_and_low inputLen 6;
          totalBlocks0 = fullBlocks + (if remainder > 0 then 1 else 0);
          totalBlocks = (if totalBlocks0 = 0 then 1 else totalBlocks0);
          inputWords =
            (if IS_LITTLE_ENDIAN \<and> (byteOffset input + inputOffset) mod 4 = 0 \<and> inputLen \<ge> 4
             then Some (input_words input inputOffset (js_ushr inputLen 2)) else None)
      in snd (foldl (root_block_step input inputWords inputOffset inputLen remainder totalBlocks
                       chunkCounter' flags' fullOutput)
                (IV, out) [0..<totalBlocks]))"

text \<open>
  The output array of the one-shot functions: the shared 8-word array for a 32-byte
  digest, a new array of 16 or 8 words otherwise.
\<close>

definition out_array :: "nat \<Rightarrow> u32 list" where
  "out_array outputLen =
     (if outputLen = 32 then replicate 8 0 else replicate (if outputLen > 32 then 16 else 8) 0)"

text \<open>
  How the one-shot functions return the digest.  \<open>new Uint8Array(out.buffer, 0, outputLen)\<close>
  throws a \<open>RangeError\<close> when \<open>outputLen\<close> is more than the bytes of the output array.
\<close>

definition emit_output :: "u32 list \<Rightarrow> nat \<Rightarrow> error + u8 list" where
  "emit_output out outputLen =
     (if outputLen = 32 \<and> IS_LITTLE_ENDIAN then Inr (words_bytes out)
      else if IS_LITTLE_ENDIAN then
        (if 4 * length out < outputLen then Inl RangeError
         else Inr (set_words (replicate outputLen 0) (take outputLen (words_bytes out)) 0))
      else Inr (writeLittleEndianBytesPartial out 0 (replicate outputLen 0) 0 outputLen))"

text \<open>
  The merge loop of the one-shot functions.  It stops in front of the merge that would
  give the root.  The state is the stack length, the parent block and the pending chaining
  value with its offset.
\<close>

function pure_merge_loop ::
  "u32 list \<Rightarrow> nat \<Rightarrow> u32 list \<Rightarrow> u32 list \<Rightarrow> nat \<Rightarrow> bool \<Rightarrow> nat \<Rightarrow> nat \<times> u32 list \<times> u32 list \<times> nat" where
  "pure_merge_loop stack stackLen parentBlock cvSrc cvSrcOff isLastChunk totalChunks =
     (if js_and_low totalChunks 1 = 0 \<and> stackLen > 0 then
        (if stackLen = 1 \<and> isLastChunk then (stackLen, parentBlock, cvSrc, cvSrcOff)
         else
           (let stackLen1 = stackLen - 1;
                stackOff = stackLen1 * 8;
                parentBlock1 = copyCV8 stack stackOff parentBlock 0;
                parentBlock2 = copyCV8 cvSrc cvSrcOff parentBlock1 8;
                parentCv = compress IV 0 parentBlock2 0 False 0 BLOCK_LEN PARENT
            in pure_merge_loop stack stackLen1 parentBlock2 parentCv 0 isLastChunk (js_ushr totalChunks 1)))
      else (stackLen, parentBlock, cvSrc, cvSrcOff))"
  by pat_completeness auto
termination
  by (relation "measure (\<lambda>(stack, stackLen, parentBlock, cvSrc, cvSrcOff, isLastChunk, totalChunks). stackLen)")
     auto

declare pure_merge_loop.simps [simp del]

text \<open>Merging one chunk's chaining value into the stack: the loop, then the push.\<close>

definition pure_push ::
  "u32 list \<times> nat \<times> u32 list \<Rightarrow> u32 list \<Rightarrow> bool \<Rightarrow> nat \<Rightarrow> u32 list \<times> nat \<times> u32 list" where
  "pure_push st chunkCv isLastChunk totalChunks =
     (case st of (stack, stackLen, parentBlock) \<Rightarrow>
        (case pure_merge_loop stack stackLen parentBlock chunkCv 0 isLastChunk totalChunks of
           (stackLen1, parentBlock1, cvSrc, cvSrcOff) \<Rightarrow>
             (copyCV8 cvSrc cvSrcOff stack (stackLen1 * 8), stackLen1 + 1, parentBlock1)))"

text \<open>The final loop of \<open>hashPureJS\<close>: the two top entries are merged until the root is reached.\<close>

function pure_finalize_loop :: "u32 list \<Rightarrow> nat \<Rightarrow> u32 list \<Rightarrow> nat \<Rightarrow> error + u8 list" where
  "pure_finalize_loop stack stackLen parentBlock outputLen =
     (if stackLen > 1 then
        (let rightOff = (stackLen - 1) * 8;
             stackLen2 = stackLen - 2;
             leftOff = stackLen2 * 8;
             parentBlock1 = copyCV8 stack leftOff parentBlock 0;
             parentBlock2 = copyCV8 stack rightOff parentBlock1 8
         in if stackLen2 = 0 then
              emit_output
                (write_words (out_array outputLen) 0
                   (compress IV 0 parentBlock2 0 (outputLen > 32) 0 BLOCK_LEN (PARENT OR ROOT)))
                outputLen
            else
              pure_finalize_loop
                (copyCV8 (compress IV 0 parentBlock2 0 False 0 BLOCK_LEN PARENT) 0 stack (stackLen2 * 8))
                (stackLen2 + 1) parentBlock2 outputLen)
      else
        emit_output
          (write_words (out_array outputLen) 0
             (compress IV 0 (copyCV8 stack 0 (replicate 16 0) 0) 0 (outputLen > 32) 0 BLOCK_LEN ROOT))
          outputLen)"
  by pat_completeness auto
termination
  by (relation "measure (\<lambda>(stack, stackLen, parentBlock, outputLen). stackLen)") auto

declare pure_finalize_loop.simps [simp del]

text \<open>\<open>hashPureJS(input, outputLen)\<close>\<close>

definition hashPureJS :: "Uint8Array \<Rightarrow> nat \<Rightarrow> error + u8 list" where
  "hashPureJS input outputLen =
     (let inputLen = length (bytes input)
      in if inputLen = 0 then
           emit_output
             (write_words (out_array outputLen) 0
                (compress IV 0 (replicate 16 0) 0 (outputLen > 32) 0 0 (CHUNK_START OR CHUNK_END OR ROOT)))
             outputLen
         else
           (let numChunks = (inputLen + CHUNK_LEN - 1) div CHUNK_LEN
            in if numChunks = 1 then
                 emit_output (hashChunkRoot input 0 inputLen 0 0 (out_array outputLen) (outputLen > 32))
                   outputLen
               else
                 (let canUseFastPath = (IS_LITTLE_ENDIAN \<and> byteOffset input mod 4 = 0);
                      inputWords = (if canUseFastPath then Some (input_words input 0 (js_ushr inputLen 2))
                                    else None);
                      fullChunks = js_ushr inputLen 10;
                      lastChunkLen = js_and_low inputLen 10;
                      st0 = (replicate 512 0, 0, replicate 16 0);
                      st =
                        (if canUseFastPath \<and> inputWords \<noteq> None then
                           (let st1 = foldl (\<lambda>st chunkIdx.
                                    pure_push st
                                      (full_chunk_cv (the inputWords) (chunkIdx * 256) chunkIdx 0 IV)
                                      (chunkIdx = fullChunks - 1 \<and> lastChunkLen = 0) (chunkIdx + 1))
                                  st0 [0..<fullChunks]
                            in if lastChunkLen > 0 then
                                 pure_push st1
                                   (hashChunkWithWords input inputWords (fullChunks * CHUNK_LEN)
                                      lastChunkLen fullChunks 0)
                                   True (fullChunks + 1)
                               else st1)
                         else
                           foldl (\<lambda>st chunkIdx.
                               pure_push st
                                 (hashChunkWithWords input inputWords (chunkIdx * CHUNK_LEN)
                                    (min CHUNK_LEN (inputLen - chunkIdx * CHUNK_LEN)) chunkIdx 0)
                                 (chunkIdx = numChunks - 1) (chunkIdx + 1))
                             st0 [0..<numChunks])
                  in case st of (stack, stackLen, parentBlock) \<Rightarrow>
                       pure_finalize_loop stack stackLen parentBlock outputLen)))"

section \<open>Definitions for the statements\<close>

text \<open>The number of one bits, and of trailing zero bits, of a natural number.\<close>

fun popcount :: "nat \<Rightarrow> nat" where
  "popcount n = (if n = 0 then 0 else n mod 2 + popcount (n div 2))"

declare popcount.simps [simp del]

fun ctz :: "nat \<Rightarrow> nat" where
  "ctz n = (if n = 0 \<or> odd n then 0 else Suc (ctz (n div 2)))"

declare ctz.simps [simp del]

text \<open>
  The hashers that arise from a new hasher, in any mode, by passes of the loop of
  \<open>Hasher.update\<close> that return.  The three modes differ in the key words and the flags
  that the constructor gets.
\<close>

inductive updated :: "Hasher \<Rightarrow> bool" where
  new: "updated (Hasher_new keyWords' flags')"
| step: "updated h \<Longrightarrow> 0 < inputLen \<Longrightarrow> update_step h input inputOffset inputLen = Some (Inr (h', n))
         \<Longrightarrow> updated h'"

text \<open>The hasher of a state of the merge loop.\<close>

definition merge_hasher :: "merge_state \<Rightarrow> Hasher" where
  "merge_hasher s = fst s"

text \<open>
  The output stream in the specification's words: the byte at offset \<open>o\<close> is byte
  \<open>o mod 64\<close> of the 64-byte extended output of compressing the seed with the \<open>ROOT\<close>
  flag and the counter \<open>o div 64\<close>.
\<close>

definition xof_stream :: "Output \<Rightarrow> nat \<Rightarrow> u8" where
  "xof_stream seed o' =
     words_bytes (compress (Output.inputCv seed) 0 (Output.blockWords seed) 0 True (o' div 64)
                    (Output.blockLen seed) (Output.flags seed OR ROOT)) ! (o' mod 64)"

text \<open>A sequence of \<open>read\<close> calls on one reader: the returned arrays, concatenated.\<close>

fun reads :: "XofReader \<Rightarrow> nat list \<Rightarrow> u8 list" where
  "reads r [] = []"
| "reads r (n # ns) = (case XofReader_read r n of (bs, r1) \<Rightarrow> bs @ reads r1 ns)"

text \<open>An input of \<open>n\<close> zero bytes, in an array at the start of its buffer.\<close>

definition zeros :: "nat \<Rightarrow> Uint8Array" where
  "zeros n = \<lparr>byteOffset = 0, bytes = replicate n 0\<rparr>"

text \<open>\<open>totalChunks\<close> in a state of the merge loop.\<close>

definition merge_total :: "merge_state \<Rightarrow> nat" where
  "merge_total s = snd (snd (snd (snd (snd s))))"

text \<open>
  The stack holds one entry for each one bit of the chunk counter, which is below
  \<open>2 ** 32\<close>.
\<close>

definition stack_inv :: "Hasher \<Rightarrow> bool" where
  "stack_inv h \<longleftrightarrow> chunkCounter (chunkState h) < 2 ^ 32
     \<and> cvStackLen h = int (popcount (chunkCounter (chunkState h)))"

text \<open>The eight words that the compression of the empty input gives.\<close>

definition empty_digest_words :: "u32 list" where
  "empty_digest_words = compress IV 0 (replicate 16 0) 0 False 0 0 (CHUNK_START OR CHUNK_END OR ROOT)"

section \<open>Auxiliary definitions for evaluating the compression function\<close>

text \<open>
  The statements of \<open>g\<close> one by one, so that a concrete state is rewritten from the
  inside out.
\<close>

definition g_add :: "u32 list \<Rightarrow> nat \<Rightarrow> nat \<Rightarrow> u32 \<Rightarrow> u32 list" where
  "g_add s a b m = s[a := s ! a + s ! b + m]"

definition g_sum :: "u32 list \<Rightarrow> nat \<Rightarrow> nat \<Rightarrow> u32 list" where
  "g_sum s c d = s[c := s ! c + s ! d]"

definition g_xor_rot :: "u32 list \<Rightarrow> nat \<Rightarrow> nat \<Rightarrow> nat \<Rightarrow> u32 list" where
  "g_xor_rot s d a n = s[d := rotr n (s ! d XOR s ! a)]"

text \<open>
  The compression of the empty input: the all-zero block, counter 0, block length 0 and
  the flags \<open>CHUNK_START | CHUNK_END | ROOT\<close>.  The states after the seven rounds.
\<close>

definition empty_block :: "u32 list" where
  "empty_block = [0, 0, 0, 0, 0, 0, 0, 0, 0, 0, 0, 0, 0, 0, 0, 0]"

definition empty_state0 :: "u32 list" where
  "empty_state0 =
    [0x6A09E667, 0xBB67AE85, 0x3C6EF372, 0xA54FF53A,
     0x510E527F, 0x9B05688C, 0x1F83D9AB, 0x5BE0CD19,
     0x6A09E667, 0xBB67AE85, 0x3C6EF372, 0xA54FF53A,
     0x00000000, 0x00000000, 0x00000000, 0x0000000B]"

definition empty_state1 :: "u32 list" where
  "empty_state1 =
    [0x775146DC, 0x91D99567, 0x8D7EB8E2, 0xBA28BE49,
     0xBF7B53FF, 0xE7661B5D, 0x7F835244, 0x24BF2E76,
     0xE15F5DCD, 0x1AEB5F15, 0x809EAE90, 0xF32C027F,
     0xE0253D07, 0x5D9F85CC, 0xAA5E2248, 0x180DAFF3]"

definition empty_state2 :: "u32 list" where
  "empty_state2 =
    [0x2C13A84B, 0x7391D71C, 0xAC838B2B, 0x24EB933C,
     0xFF2B859C, 0x06F4FC75, 0xF59E03F7, 0xC9B120BE,
     0x6F6B735B, 0x14640C27, 0x11D275E2, 0x03CAC1DB,
     0xD66C43C9, 0x913071C2, 0xD615CC6A, 0x3FE126BF]"

definition empty_state3 :: "u32 list" where
  "empty_state3 =
    [0xC701A3DB, 0xFAFDDA68, 0x4500AEFC, 0x8B2BD935,
     0xE03FD3D0, 0x39BA3382, 0xFC9E75F5, 0xE3F3E7BA,
     0xB5B666A0, 0xDC8EE13A, 0x286F0345, 0x18E70302,
     0x6755352C, 0xD1F41721, 0xF237235A, 0xE962EC1A]"

definition empty_state4 :: "u32 list" where
  "empty_state4 =
    [0xDF9AD597, 0xDD7BB3BD, 0x28638E71, 0x42BDD2FD,
     0xEE85FEE0, 0x718E6EE5, 0x5338FD61, 0x36178D26,
     0x1B151726, 0xBCBD45B6, 0x4D29026E, 0xD4F01F6F,
     0xEFDBBBF9, 0x7EED492C, 0xF25FDF03, 0x9C34FE18]"

definition empty_state5 :: "u32 list" where
  "empty_state5 =
    [0x311341A0, 0xE7BF7AD7, 0xFA040CAA, 0x8DEA573B,
     0xE6872C9A, 0x87743C00, 0xAE95E0DC, 0xB868CCDD,
     0x1E84F6DB, 0x5064AB73, 0x519B6EB0, 0x256C35C7,
     0xD141CF1A, 0x068F28D7, 0x0886EF14, 0xA3E1E93E]"

definition empty_state6 :: "u32 list" where
  "empty_state6 =
    [0x4F570EAD, 0x60477936, 0xDE1FA32D, 0x1526F2B6,
     0x18479E2E, 0x8A7C3BF6, 0x803141A7, 0x64FE24E9,
     0x50EC3591, 0x8A762305, 0xBB54E5AB, 0xE920F0AA,
     0x7A754DAF, 0x90963B58, 0x50E0B2C2, 0xAD11DEA3]"

definition empty_state7 :: "u32 list" where
  "empty_state7 =
    [0x3443FA28, 0x7634CDC6, 0x49D319AD, 0xBCB61AC1,
     0x78F414D7, 0xAADB11A4, 0xF59BEAFB, 0x03F6DA91,
     0x8D0AE987, 0xD0953433, 0xA39E590D, 0xF57FC6F7,
     0xB1D1DF4C, 0x1DC9D009, 0x3F087037, 0x61C4C575]"

text \<open>
  The blocks a reader produces, the stream they form from the reader's first counter on, and
  the state of a reader that has handed out the first \<open>p\<close> bytes of that stream.
\<close>

definition reader_block :: "XofReader \<Rightarrow> nat \<Rightarrow> u32 list" where
  "reader_block r k =
     compress (XofReader.inputCv r) 0 (XofReader.blockWords r) 0 True k (XofReader.blockLen r)
       (XofReader.flags r)"

definition reader_stream :: "XofReader \<Rightarrow> nat \<Rightarrow> u8" where
  "reader_stream r0 o' = words_bytes (reader_block r0 (XofReader.counter r0 + o' div 64)) ! (o' mod 64)"

definition reader_at :: "XofReader \<Rightarrow> nat \<Rightarrow> XofReader \<Rightarrow> bool" where
  "reader_at r0 p r \<longleftrightarrow>
     XofReader.inputCv r = XofReader.inputCv r0 \<and> XofReader.blockWords r = XofReader.blockWords r0 \<and>
     XofReader.blockLen r = XofReader.blockLen r0 \<and> XofReader.flags r = XofReader.flags r0 \<and>
     length (outputBlock r) = 16 \<and> outputBlockOffset r \<le> 64 \<and>
     XofReader.counter r0 \<le> XofReader.counter r \<and>
     p + 64 = 64 * (XofReader.counter r - XofReader.counter r0) + outputBlockOffset r \<and>
     (outputBlockOffset r < 64 \<longrightarrow> outputBlock r = reader_block r0 (XofReader.counter r - 1))"

section \<open>Typed arrays and flags\<close>

lemma length_compress: "length (compress cv co b bo full c bl f) = (if full then 16 else 8)"
  by (simp add: compress_def compress_words_def compress_out_def)

lemma write_words_prefix:
  "n \<le> length ws \<Longrightarrow> off + length ws \<le> length out \<Longrightarrow>
   foldl (\<lambda>acc i. acc[off + i := ws ! i]) out [0..<n] = take off out @ take n ws @ drop (off + n) out"
proof (induction n)
  case 0
  then show ?case by simp
next
  case (Suc n)
  then have "foldl (\<lambda>acc i. acc[off + i := ws ! i]) out [0..<Suc n] =
      (take off out @ take n ws @ drop (off + n) out)[off + n := ws ! n]"
    by simp
  also have "\<dots> = take off out @ take n ws @ (drop (off + n) out)[0 := ws ! n]"
    using Suc.prems by (simp add: list_update_append)
  also have "(drop (off + n) out)[0 := ws ! n] = ws ! n # drop (off + Suc n) out"
    using Suc.prems by (cases "drop (off + n) out") (auto simp: drop_Suc drop_tl)
  also have "take n ws @ ws ! n # drop (off + Suc n) out = take (Suc n) ws @ drop (off + Suc n) out"
    using Suc.prems by (simp add: take_Suc_conv_app_nth)
  finally show ?case by simp
qed

lemma write_words_fits:
  "off + length ws \<le> length out \<Longrightarrow> write_words out off ws = take off out @ ws @ drop (off + length ws) out"
  using write_words_prefix [of "length ws" ws off out] by (simp add: write_words_def)

lemma write_words_all: "length out = length ws \<Longrightarrow> write_words out 0 ws = ws"
  by (simp add: write_words_fits)

lemma length_write_words: "length (write_words out off ws) = length out"
proof -
  have "length (foldl (\<lambda>acc i. acc[off + i := ws ! i]) out is) = length out" for "is"
    by (induction "is" arbitrary: out) simp_all
  then show ?thesis by (simp add: write_words_def)
qed

lemma upt_8: "[0..<8] = [0, 1, 2, 3, 4, 5, 6, 7]"
  by (simp add: upt_rec)

lemma upt_16: "[0..<16] = [0, 1, 2, 3, 4, 5, 6, 7, 8, 9, 10, 11, 12, 13, 14, 15]"
  by (simp add: upt_rec)

lemma replicate_update_same: "(replicate n x)[i := x] = replicate n x"
  by (induction n arbitrary: i) (simp_all split: nat.split)

lemma zero_pad_zeros: "zero_pad (replicate n 0) k = replicate n 0"
proof -
  have "foldl (\<lambda>acc i. acc[i := 0]) (replicate n (0::u32)) is = replicate n 0" for "is"
    by (induction "is") (simp_all add: replicate_update_same)
  then show ?thesis by (simp add: zero_pad_def)
qed

lemma flags_values:
  "CHUNK_START OR CHUNK_END = 3" "CHUNK_START OR CHUNK_END OR ROOT = 11" "(3::u32) OR ROOT = 11"
  "PARENT OR ROOT = 12"
  by (simp_all add: CHUNK_START_def CHUNK_END_def ROOT_def PARENT_def)

lemma length_words_bytes: "length (words_bytes ws) = 4 * length ws"
  by (induction ws) (simp_all add: words_bytes_def)

lemma words_bytes_append: "words_bytes (xs @ ys) = words_bytes xs @ words_bytes ys"
  by (simp add: words_bytes_def)

lemma subarray_prefix: "n \<le> length xs \<Longrightarrow> subarray xs 0 (int n) = take n xs"
  by (simp add: subarray_def relative_index_def)

section \<open>The stack of chaining values\<close>

subsection \<open>popcount and ctz\<close>

lemma popcount_0 [simp]: "popcount 0 = 0"
  by (simp add: popcount.simps)

lemma popcount_pos: "0 < n \<Longrightarrow> 0 < popcount n"
proof (induction n rule: less_induct)
  case (less n)
  show ?case
  proof (cases "even n")
    case True
    with less.prems have "0 < n div 2" by (auto elim: evenE)
    with less have "0 < popcount (n div 2)" by simp
    with less.prems show ?thesis by (subst popcount.simps) simp
  next
    case False
    then have "n mod 2 = 1" by (simp add: odd_iff_mod_2_eq_one)
    with less.prems show ?thesis by (subst popcount.simps) simp
  qed
qed

lemma popcount_eq_0_iff: "popcount n = 0 \<longleftrightarrow> n = 0"
  using popcount_pos [of n] by (cases "n = 0") auto

lemma popcount_Suc: "popcount (Suc n) + ctz (Suc n) = Suc (popcount n)"
proof (induction n rule: less_induct)
  case (less n)
  show ?case
  proof (cases "even n")
    case True
    then have a: "Suc n mod 2 = 1" "Suc n div 2 = n div 2" "n mod 2 = 0"
      by (auto elim!: evenE)
    have "ctz (Suc n) = 0" using True by (subst ctz.simps) simp
    moreover have "popcount (Suc n) = 1 + popcount (n div 2)"
      by (subst popcount.simps) (simp add: a)
    moreover have "popcount n = popcount (n div 2)"
      by (subst popcount.simps) (simp add: a)
    ultimately show ?thesis by simp
  next
    case False
    then obtain m where m: "n = Suc (2 * m)" by (auto elim: oddE)
    then have a: "Suc n mod 2 = 0" "Suc n div 2 = Suc m" "n mod 2 = 1" "n div 2 = m"
      by simp_all
    have "ctz (Suc n) = Suc (ctz (Suc m))" using False a by (subst ctz.simps) simp
    moreover have "popcount (Suc n) = popcount (Suc m)"
      by (subst popcount.simps) (simp add: a)
    moreover have "popcount n = 1 + popcount m"
      by (subst popcount.simps) (simp add: a m)
    moreover have "popcount (Suc m) + ctz (Suc m) = Suc (popcount m)"
      using less [of m] m by simp
    ultimately show ?thesis by simp
  qed
qed

lemma ctz_le_popcount: "ctz (Suc n) \<le> popcount n"
  using popcount_Suc [of n] popcount_pos [of "Suc n"] by simp

subsection \<open>The merge loop\<close>

lemma merge_body_fields:
  "cvStackLen (merge_hasher (merge_body s)) = cvStackLen (merge_hasher s) - 1"
  "chunkState (merge_hasher (merge_body s)) = chunkState (merge_hasher s)"
  "merge_total (merge_body s) = (merge_total s mod 2 ^ 32) div 2"
  by (simp_all add: merge_body_def merge_hasher_def merge_total_def popCv_def js_ushr_def Let_def
      split: prod.splits)

lemma merge_cond_total: "merge_cond s \<longleftrightarrow> even (merge_total s mod 2 ^ 32)"
  by (auto simp: merge_cond_def merge_total_def js_and_low_def split: prod.splits)

lemma addChunkCv_loop_returns:
  assumes "addChunkCv_loop s = Some s'"
  shows "merge_total s mod 2 ^ 32 \<noteq> 0
    \<and> cvStackLen (merge_hasher s') = cvStackLen (merge_hasher s) - int (ctz (merge_total s mod 2 ^ 32))
    \<and> chunkState (merge_hasher s') = chunkState (merge_hasher s)"
    (is "?P s s'")
proof (rule addChunkCv_loop.raw_induct [where P = ?P, OF _ assms])
  fix loop :: "merge_state \<Rightarrow> merge_state option" and s s'
  assume ih: "\<And>x y. loop x = Some y \<Longrightarrow> ?P x y"
    and eq: "(if merge_cond s then loop (merge_body s) else Some s) = Some s'"
  let ?t = "merge_total s mod 2 ^ 32"
  show "?P s s'"
  proof (cases "merge_cond s")
    case True
    with eq have r: "loop (merge_body s) = Some s'" by simp
    have t': "merge_total (merge_body s) = ?t div 2" by (simp add: merge_body_fields)
    have "?t div 2 < 2 ^ 32" by (simp add: less_mult_imp_div_less)
    then have m: "(?t div 2) mod 2 ^ 32 = ?t div 2" by simp
    from ih [OF r] have ih': "?t div 2 \<noteq> 0"
      "cvStackLen (merge_hasher s') = cvStackLen (merge_hasher (merge_body s)) - int (ctz (?t div 2))"
      "chunkState (merge_hasher s') = chunkState (merge_hasher (merge_body s))"
      by (simp_all add: t' m)
    from ih'(1) have nz: "?t \<noteq> 0" by auto
    from True have ev: "even ?t" by (simp add: merge_cond_total)
    have "ctz ?t = Suc (ctz (?t div 2))" using nz ev by (subst ctz.simps) simp
    with ih' nz show ?thesis by (simp add: merge_body_fields)
  next
    case False
    with eq have "s' = s" by simp
    moreover from False have od: "odd ?t" by (simp add: merge_cond_total)
    moreover from od have "ctz ?t = 0" by (subst ctz.simps) simp
    moreover from od have "?t \<noteq> 0" by (auto intro: ccontr)
    ultimately show ?thesis by simp
  qed
qed

lemma merge_body_funpow_len:
  "cvStackLen (merge_hasher ((merge_body ^^ k) s)) = cvStackLen (merge_hasher s) - int k"
  by (induction k) (simp_all add: merge_body_fields)

lemma merge_cond_steps:
  "(\<forall>j\<le>k. merge_cond ((merge_body ^^ j) s)) \<Longrightarrow> merge_total s mod 2 ^ 32 \<noteq> 0
   \<Longrightarrow> k < ctz (merge_total s mod 2 ^ 32)"
proof (induction k arbitrary: s)
  case 0
  then have "even (merge_total s mod 2 ^ 32)" by (simp add: merge_cond_total)
  with 0 show ?case by (subst ctz.simps) simp
next
  case (Suc k)
  let ?t = "merge_total s mod 2 ^ 32"
  from Suc.prems(1) have c0: "merge_cond s" by (metis funpow_0 le0)
  then have ev: "even ?t" by (simp add: merge_cond_total)
  with Suc.prems(2) have "2 \<le> ?t" by (auto elim!: evenE)
  then have nz: "?t div 2 \<noteq> 0" by simp
  have "?t div 2 < 2 ^ 32" by (simp add: less_mult_imp_div_less)
  then have m: "(?t div 2) mod 2 ^ 32 = ?t div 2" by simp
  have "\<forall>j\<le>k. merge_cond ((merge_body ^^ j) (merge_body s))"
  proof (intro allI impI)
    fix j assume "j \<le> k"
    then have "merge_cond ((merge_body ^^ Suc j) s)" using Suc.prems(1) by (metis Suc_le_mono)
    then show "merge_cond ((merge_body ^^ j) (merge_body s))" by (simp add: funpow_swap1)
  qed
  from Suc.IH [OF this] nz have "k < ctz (?t div 2)" by (simp add: merge_body_fields m)
  moreover have "ctz ?t = Suc (ctz (?t div 2))" using Suc.prems(2) ev by (subst ctz.simps) simp
  ultimately show ?case by simp
qed

lemma pushCv_returns:
  "pushCv h cv off = Inr h' \<Longrightarrow>
     cvStackLen h' = cvStackLen h + 1 \<and> chunkState h' = chunkState h \<and> keyWords h' = keyWords h
     \<and> Hasher.flags h' = Hasher.flags h"
  by (auto simp: pushCv_def split: if_splits sum.splits)

lemma addChunkCv_returns:
  assumes "addChunkCv h cv off t = Some (Inr h')"
  shows "t mod 2 ^ 32 \<noteq> 0 \<and> cvStackLen h' = cvStackLen h - int (ctz (t mod 2 ^ 32)) + 1
    \<and> chunkState h' = chunkState h"
proof -
  from assms obtain h1 pb pcv cv1 off1 t1
    where l: "addChunkCv_loop (h, replicate 16 0, replicate 8 0, cv, off, t) = Some (h1, pb, pcv, cv1, off1, t1)"
      and p: "pushCv h1 cv1 off1 = Inr h'"
    by (auto simp: addChunkCv_def split: option.splits prod.splits)
  from addChunkCv_loop_returns [OF l] pushCv_returns [OF p] show ?thesis
    by (simp add: merge_total_def merge_hasher_def)
qed

lemma ChunkState_output_fields:
  "chunkCounter (snd (ChunkState_output cs)) = chunkCounter cs"
  "Output.counter (fst (ChunkState_output cs)) = chunkCounter cs"
  by (simp_all add: ChunkState_output_def Let_def)

lemma finish_chunk_returns:
  assumes "finish_chunk h = Some (Inr h')"
  shows "Suc (chunkCounter (chunkState h)) mod 2 ^ 32 \<noteq> 0
    \<and> cvStackLen h' = cvStackLen h - int (ctz (Suc (chunkCounter (chunkState h)) mod 2 ^ 32)) + 1
    \<and> chunkCounter (chunkState h') = Suc (chunkCounter (chunkState h))"
proof -
  obtain out cs1 where o: "ChunkState_output (chunkState h) = (out, cs1)"
    by (cases "ChunkState_output (chunkState h)")
  then have c: "chunkCounter cs1 = chunkCounter (chunkState h)"
    using ChunkState_output_fields(1) [of "chunkState h"] by simp
  from assms o obtain h2 cv where
    a: "addChunkCv (h\<lparr>chunkState := cs1\<rparr>) cv 0 (chunkCounter cs1 + 1) = Some (Inr h2)"
    and h': "h' = h2\<lparr>chunkState := ChunkState_new (keyWords h2) (chunkCounter cs1 + 1) (Hasher.flags h2)\<rparr>"
    by (auto simp: finish_chunk_def Let_def split: option.splits sum.splits)
  from addChunkCv_returns [OF a] h' c show ?thesis
    by (simp add: ChunkState_new_def)
qed

lemma ChunkState_update_counter:
  assumes "ChunkState_update cs input off n = Some (Inr cs')"
  shows "chunkCounter cs' = chunkCounter cs"
proof -
  let ?P = "\<lambda>(cs :: ChunkState) (input :: Uint8Array) (off :: nat) (n :: nat) (r :: error + ChunkState).
    \<forall>cs'. r = Inr cs' \<longrightarrow> chunkCounter cs' = chunkCounter cs"
  have "?P cs input off n (Inr cs')"
  proof (rule ChunkState_update.raw_induct [where P = ?P, OF _ assms])
    fix upd cs input off n r
    assume ih: "\<And>cs input off n r. upd cs input off n = Some r \<Longrightarrow> ?P cs input off n r"
      and eq: "(if 0 < n
         then let cs1 = compress_full_block cs; want = BLOCK_LEN - ChunkState.blockLen cs1;
                  take' = min want n
              in case fill_block cs1 input off take' of
                   Inl e \<Rightarrow> Some (Inl e)
                 | Inr bw \<Rightarrow> upd (cs1\<lparr>ChunkState.blockWords := bw,
                       ChunkState.blockLen := ChunkState.blockLen cs1 + take'\<rparr>)
                     input (off + take') (n - take')
         else Some (Inr cs)) = Some r"
    have cf: "chunkCounter (compress_full_block cs) = chunkCounter cs"
      by (simp add: compress_full_block_def)
    show "?P cs input off n r"
    proof (cases "0 < n")
      case True
      show ?thesis
      proof (intro allI impI)
        fix cs' assume r: "r = Inr cs'"
        from eq True r obtain bw t where
          "upd ((compress_full_block cs)\<lparr>ChunkState.blockWords := bw,
                 ChunkState.blockLen := ChunkState.blockLen (compress_full_block cs) + t\<rparr>)
             input (off + t) (n - t) = Some (Inr cs')"
          by (auto simp: Let_def split: sum.splits)
        from ih [OF this] cf show "chunkCounter cs' = chunkCounter cs" by simp
      qed
    next
      case False
      with eq show ?thesis by auto
    qed
  qed
  then show ?thesis by simp
qed

lemma finish_chunk_inv:
  assumes "finish_chunk h = Some (Inr h')" "stack_inv h"
  shows "stack_inv h'"
proof -
  let ?c = "chunkCounter (chunkState h)"
  from finish_chunk_returns [OF assms(1)] have
    nz: "Suc ?c mod 2 ^ 32 \<noteq> 0"
    and l: "cvStackLen h' = cvStackLen h - int (ctz (Suc ?c mod 2 ^ 32)) + 1"
    and c: "chunkCounter (chunkState h') = Suc ?c"
    by simp_all
  from assms(2) have "?c < 2 ^ 32" by (simp add: stack_inv_def)
  with nz have lt: "Suc ?c < 2 ^ 32" by (cases "Suc ?c = 2 ^ 32") auto
  then have m: "Suc ?c mod 2 ^ 32 = Suc ?c" by simp
  from popcount_Suc [of ?c] have "int (popcount (Suc ?c)) = int (popcount ?c) - int (ctz (Suc ?c)) + 1"
    by linarith
  with l m assms(2) c lt show ?thesis by (simp add: stack_inv_def)
qed

lemma update_step_inv:
  assumes "update_step h input off n = Some (Inr (h', k))" "stack_inv h"
  shows "stack_inv h'"
proof -
  from assms(1) obtain h1 cs where
    h1: "(if len (chunkState h) = CHUNK_LEN then finish_chunk h else Some (Inr h)) = Some (Inr h1)"
    and cs: "ChunkState_update (chunkState h1) input off k = Some (Inr cs)"
    and h': "h' = h1\<lparr>chunkState := cs\<rparr>"
    by (auto simp: update_step_def Let_def split: option.splits sum.splits)
  from h1 assms(2) have "stack_inv h1"
    by (auto split: if_splits intro: finish_chunk_inv)
  with ChunkState_update_counter [OF cs] h' show ?thesis by (simp add: stack_inv_def)
qed

lemma updated_inv: "updated h \<Longrightarrow> stack_inv h"
proof (induction rule: updated.induct)
  case (new kw fl)
  show ?case by (simp add: stack_inv_def Hasher_new_def ChunkState_new_def Let_def)
next
  case (step h inputLen input inputOffset h' n)
  then show ?case by (auto intro: update_step_inv)
qed

lemma Hasher_update_loop_updated:
  assumes "Hasher_update_loop h input off n = Some (Inr h')" "updated h"
  shows "updated h'"
proof -
  let ?P = "\<lambda>(h :: Hasher) (input :: Uint8Array) (off :: nat) (n :: nat) (r :: error + Hasher).
    updated h \<longrightarrow> (\<forall>h'. r = Inr h' \<longrightarrow> updated h')"
  have "?P h input off n (Inr h')"
  proof (rule Hasher_update_loop.raw_induct [where P = ?P, OF _ assms(1)])
    fix loop h input off n r
    assume ih: "\<And>h input off n r. loop h input off n = Some r \<Longrightarrow> ?P h input off n r"
      and eq: "(if 0 < n
          then case update_step h input off n of None \<Rightarrow> None
               | Some (Inl e) \<Rightarrow> Some (Inl e)
               | Some (Inr (h1, take')) \<Rightarrow> loop h1 input (off + take') (n - take')
          else Some (Inr h)) = Some r"
    show "?P h input off n r"
    proof (intro impI allI)
      fix h' assume u: "updated h" and r: "r = Inr h'"
      show "updated h'"
      proof (cases "0 < n")
        case True
        with eq r obtain h1 t where s: "update_step h input off n = Some (Inr (h1, t))"
          and l: "loop h1 input (off + t) (n - t) = Some (Inr h')"
          by (auto split: option.splits sum.splits prod.splits)
        from updated.step [OF u True s] have "updated h1" .
        with ih [OF l] show ?thesis by simp
      next
        case False
        with eq r u show ?thesis by simp
      qed
    qed
  qed
  with assms(2) show ?thesis by simp
qed

lemma Hasher_update_updated:
  "Hasher_update h input = Some (Inr h') \<Longrightarrow> updated h \<Longrightarrow> updated h'"
  unfolding Hasher_update_def by (rule Hasher_update_loop_updated)

section \<open>Evaluating the hasher on zero bytes\<close>

lemma length_bytes_zeros: "length (bytes (zeros n)) = n"
  by (simp add: zeros_def)

lemma byte_at_zeros: "byte_at (zeros n) i = 0"
  by (simp add: byte_at_def zeros_def)

lemma le_word_zeros: "le_word (zeros n) k = 0"
  by (simp add: le_word_def byte_at_zeros)

lemma uint32_view_zeros:
  "uint32_view (zeros n) off 16 = (if off mod 4 \<noteq> 0 \<or> n < off + 64 then Inl RangeError else Inr (replicate 16 0))"
  by (simp add: uint32_view_def le_word_zeros length_bytes_zeros map_replicate_const)
     (simp add: zeros_def)

lemma store_byte_zeros: "store_byte (replicate 16 0) pos 0 = replicate 16 0"
  by (cases "pos div 4 < 16") (simp_all add: store_byte_def Let_def replicate_update_same)

lemma store_bytes_zeros: "store_bytes (replicate 16 0) bl (zeros n) off k = replicate 16 0"
  by (induction k) (simp_all add: store_bytes_def byte_at_zeros store_byte_zeros)

lemma fill_block_zeros:
  "ChunkState.blockWords cs = replicate 16 0 \<Longrightarrow>
   fill_block cs (zeros n) off k =
     (if ChunkState.blockLen cs = 0 \<and> k = 64 then
        (if off mod 4 \<noteq> 0 \<or> n < off + 64 then Inl RangeError else Inr (replicate 16 0))
      else Inr (replicate 16 0))"
  by (simp add: fill_block_def IS_LITTLE_ENDIAN_def BLOCK_LEN_def uint32_view_zeros typed_set_def
      store_bytes_zeros)

lemma length_IV: "length IV = 8"
  by (simp add: IV_def)

lemmas update_eval = Hasher_update_def Hasher_new_def ChunkState_new_def len_def BLOCK_LEN_def CHUNK_LEN_def
  compress_full_block_def startFlag_def update_step_def length_compress write_words_all length_bytes_zeros
  length_IV fill_block_zeros Hasher_update_loop.simps ChunkState_update.simps Let_def

lemmas push_eval = finish_chunk_def ChunkState_output_def zero_pad_zeros addChunkCv_def
  addChunkCv_loop.simps merge_cond_def merge_body_def js_and_low_def js_ushr_def popCv_def pushCv_def
  typed_set_def subarray_def relative_index_def set_words_def MAX_DEPTH_def

lemma finalizeOutput_loop_root:
  "0 < cvStackLen h \<Longrightarrow>
   \<exists>pb. finalizeOutput_loop h parentBlock cv =
     (Some \<lparr>Output.inputCv = keyWords h, Output.blockWords = pb, Output.blockLen = BLOCK_LEN,
             Output.counter = 0, Output.flags = Hasher.flags h OR PARENT\<rparr>,
      h\<lparr>cvStackLen := 0\<rparr>)"
proof (induction h parentBlock cv rule: finalizeOutput_loop.induct)
  case (1 h parentBlock cv)
  let ?h1 = "h\<lparr>cvStackLen := cvStackLen h - 1\<rparr>"
  let ?pb = "set_words (set_words parentBlock
      (subarray (cvStack ?h1) (cvStackLen ?h1 * 8) ((cvStackLen ?h1 + 1) * 8)) 0) cv 8"
  show ?case
  proof (cases "0 < cvStackLen ?h1")
    case True
    from "1.IH" [OF "1.prems" refl refl refl True True]
    obtain pb where "finalizeOutput_loop ?h1 ?pb
        (write_words cv 0 (compress (keyWords ?h1) 0 ?pb 0 False 0 BLOCK_LEN (Hasher.flags ?h1 OR PARENT))) =
      (Some \<lparr>Output.inputCv = keyWords ?h1, Output.blockWords = pb, Output.blockLen = BLOCK_LEN,
             Output.counter = 0, Output.flags = Hasher.flags ?h1 OR PARENT\<rparr>,
       ?h1\<lparr>cvStackLen := 0\<rparr>)"
      by blast
    with True "1.prems" show ?thesis
      by (subst finalizeOutput_loop.simps) (simp add: Let_def)
  next
    case False
    with "1.prems" have "cvStackLen h = 1" by simp
    with False "1.prems" show ?thesis
      by (subst finalizeOutput_loop.simps) (simp add: Let_def)
  qed
qed

lemma finalizeOutput_single:
  "\<not> 0 < cvStackLen h \<Longrightarrow>
   finalizeOutput h = (fst (ChunkState_output (chunkState h)),
                       h\<lparr>chunkState := snd (ChunkState_output (chunkState h))\<rparr>)"
  by (simp add: finalizeOutput_def split_beta Let_def)

lemma finalizeOutput_root:
  assumes "0 < cvStackLen h"
  shows "\<exists>pb. finalizeOutput h =
     (\<lparr>Output.inputCv = keyWords h, Output.blockWords = pb, Output.blockLen = BLOCK_LEN,
       Output.counter = 0, Output.flags = Hasher.flags h OR PARENT\<rparr>,
      h\<lparr>chunkState := snd (ChunkState_output (chunkState h)), cvStackLen := 0\<rparr>)"
proof -
  let ?h1 = "h\<lparr>chunkState := snd (ChunkState_output (chunkState h))\<rparr>"
  from assms have "0 < cvStackLen ?h1" by simp
  from finalizeOutput_loop_root [OF this] obtain pb where
    "finalizeOutput_loop ?h1 (replicate 16 0)
       (write_words (replicate 8 0) 0
          (compress (Output.inputCv (fst (ChunkState_output (chunkState h)))) 0
             (Output.blockWords (fst (ChunkState_output (chunkState h)))) 0 False
             (Output.counter (fst (ChunkState_output (chunkState h))))
             (Output.blockLen (fst (ChunkState_output (chunkState h))))
             (Output.flags (fst (ChunkState_output (chunkState h)))))) =
     (Some \<lparr>Output.inputCv = keyWords ?h1, Output.blockWords = pb, Output.blockLen = BLOCK_LEN,
             Output.counter = 0, Output.flags = Hasher.flags ?h1 OR PARENT\<rparr>,
      ?h1\<lparr>cvStackLen := 0\<rparr>)"
    by blast
  with assms show ?thesis
    by (simp add: finalizeOutput_def split_beta Let_def)
qed

lemma finalizeOutput_stack:
  "cvStackLen (snd (finalizeOutput h)) = (if 0 < cvStackLen h then 0 else cvStackLen h)"
proof (cases "0 < cvStackLen h")
  case True
  from finalizeOutput_root [OF True] show ?thesis using True by auto
next
  case False
  then show ?thesis by (simp add: finalizeOutput_single)
qed

lemma finalizeOutput_counter:
  assumes "updated h"
  shows "Output.counter (fst (finalizeOutput h)) = 0"
proof (cases "0 < cvStackLen h")
  case True
  from finalizeOutput_root [OF True] show ?thesis by auto
next
  case False
  from updated_inv [OF assms] have "cvStackLen h = int (popcount (chunkCounter (chunkState h)))"
    by (simp add: stack_inv_def)
  with False have "popcount (chunkCounter (chunkState h)) = 0" by simp
  then have "chunkCounter (chunkState h) = 0" by (simp add: popcount_eq_0_iff)
  with False show ?thesis by (simp add: finalizeOutput_single ChunkState_output_fields)
qed

lemma Hasher_finalize_stack:
  "0 < cvStackLen h \<Longrightarrow> cvStackLen (snd (Hasher_finalize h n)) = 0"
  using finalizeOutput_stack [of h] finalizeOutput_stack [of "snd (finalizeOutput h)"]
  by (simp add: Hasher_finalize_def finalizeXof_def split_beta Let_def)

section \<open>The output reader\<close>

lemma foldl_update_range:
  "off + n \<le> length out \<Longrightarrow>
   foldl (\<lambda>acc i. acc[off + i := f i]) out [0..<n] = take off out @ map f [0..<n] @ drop (off + n) out"
proof (induction n)
  case 0
  then show ?case by simp
next
  case (Suc n)
  then have "foldl (\<lambda>acc i. acc[off + i := f i]) out [0..<Suc n] =
      (take off out @ map f [0..<n] @ drop (off + n) out)[off + n := f n]"
    by simp
  also have "\<dots> = take off out @ map f [0..<n] @ (drop (off + n) out)[0 := f n]"
    using Suc.prems by (simp add: list_update_append)
  also have "(drop (off + n) out)[0 := f n] = f n # drop (off + Suc n) out"
    using Suc.prems by (cases "drop (off + n) out") (auto simp: drop_Suc drop_tl)
  finally show ?case by simp
qed

lemma copy_bytes_eq:
  "oo + n \<le> length out \<Longrightarrow>
   copy_bytes B q out oo n =
     take oo out @ map (\<lambda>i. word_byte (B ! ((q + i) div 4)) ((q + i) mod 4)) [0..<n] @ drop (oo + n) out"
  by (simp add: copy_bytes_def foldl_update_range)

lemma upt_four: "[0..<4 * Suc m] = [0..<4 * m] @ [4 * m, 4 * m + 1, 4 * m + 2, 4 * m + 3]"
proof -
  have a: "[0..<4 * m + 4] = [0..<4 * m] @ [4 * m..<4 * m + 4]"
    by (rule upt_add_eq_append) simp
  have b: "[4 * m..<4 * m + 4] = [4 * m, 4 * m + 1, 4 * m + 2, 4 * m + 3]"
    by (simp add: upt_rec)
  have s: "4 * Suc m = 4 * m + 4" by simp
  show ?thesis by (simp only: s a b)
qed

lemma word_writes_as_bytes:
  "foldl (\<lambda>acc i. write_word_bytes acc (oo + 4 * i) (B ! (w + i))) out [0..<m] =
   foldl (\<lambda>acc j. acc[oo + j := word_byte (B ! (w + j div 4)) (j mod 4)]) out [0..<4 * m]"
proof (induction m)
  case 0
  then show ?case by simp
next
  case (Suc m)
  have d: "Suc (4 * m) div 4 = m" "Suc (Suc (4 * m)) div 4 = m" "Suc (Suc (4 * m)) mod 4 = 2"
    by presburger+
  have "foldl (\<lambda>acc i. write_word_bytes acc (oo + 4 * i) (B ! (w + i))) out [0..<Suc m] =
      write_word_bytes (foldl (\<lambda>acc j. acc[oo + j := word_byte (B ! (w + j div 4)) (j mod 4)]) out [0..<4 * m])
        (oo + 4 * m) (B ! (w + m))"
    using Suc.IH by simp
  also have "\<dots> = foldl (\<lambda>acc j. acc[oo + j := word_byte (B ! (w + j div 4)) (j mod 4)]) out [0..<4 * Suc m]"
    unfolding upt_four foldl_append by (simp add: write_word_bytes_def d add.assoc)
  finally show ?case .
qed

lemma writeLittleEndianBytesPartial_words:
  assumes "oo + 4 * m \<le> length out" and "q mod 4 = 0"
  shows "writeLittleEndianBytesPartial B (q div 4) out oo (m * 4) =
     take oo out @ map (\<lambda>i. word_byte (B ! ((q + i) div 4)) ((q + i) mod 4)) [0..<4 * m] @ drop (oo + 4 * m) out"
proof -
  from assms(2) have e: "(q + i) div 4 = q div 4 + i div 4" "(q + i) mod 4 = i mod 4" for i
    by presburger+
  have "writeLittleEndianBytesPartial B (q div 4) out oo (m * 4) =
      foldl (\<lambda>acc j. acc[oo + j := word_byte (B ! (q div 4 + j div 4)) (j mod 4)]) out [0..<4 * m]"
    by (simp add: writeLittleEndianBytesPartial_def Let_def word_writes_as_bytes)
  also have "\<dots> = take oo out @ map (\<lambda>j. word_byte (B ! (q div 4 + j div 4)) (j mod 4)) [0..<4 * m]
      @ drop (oo + 4 * m) out"
    using assms(1) by (rule foldl_update_range)
  finally show ?thesis by (simp add: e)
qed

lemma words_bytes_nth:
  "j < 4 * length B \<Longrightarrow> words_bytes B ! j = word_byte (B ! (j div 4)) (j mod 4)"
proof (induction B arbitrary: j)
  case Nil
  then show ?case by simp
next
  case (Cons x B)
  have split: "words_bytes (x # B) = [word_byte x 0, word_byte x 1, word_byte x 2, word_byte x 3] @ words_bytes B"
    by (simp add: words_bytes_def)
  show ?case
  proof (cases "j < 4")
    case True
    then consider "j = 0" | "j = 1" | "j = 2" | "j = 3" by linarith
    then show ?thesis by cases (simp_all add: split)
  next
    case False
    then obtain i where j: "j = i + 4" by (metis le_add_diff_inverse2 not_less)
    with Cons.prems have "i < 4 * length B" by simp
    moreover have "(i + 4) div 4 = Suc (i div 4)" "(i + 4) mod 4 = i mod 4" by presburger+
    ultimately show ?thesis
      unfolding split j using Cons.IH [of i] by (simp add: nth_append)
  qed
qed

lemma length_reader_block: "length (reader_block r k) = 16"
  by (simp add: reader_block_def length_compress)

lemma refill_at:
  assumes "reader_at r0 p r"
  shows "reader_at r0 p (refill r)" and "outputBlockOffset (refill r) < 64"
proof -
  show "outputBlockOffset (refill r) < 64" by (simp add: refill_def)
  show "reader_at r0 p (refill r)"
  proof (cases "outputBlockOffset r \<ge> 64")
    case False
    with assms show ?thesis by (simp add: refill_def)
  next
    case True
    with assms have q: "outputBlockOffset r = 64" by (simp add: reader_at_def)
    from assms have c: "XofReader.counter r0 \<le> XofReader.counter r"
      and p: "p + 64 = 64 * (XofReader.counter r - XofReader.counter r0) + outputBlockOffset r"
      by (simp_all add: reader_at_def)
    from c have "Suc (XofReader.counter r) - XofReader.counter r0 = Suc (XofReader.counter r - XofReader.counter r0)"
      by simp
    with p q have p': "p + 64 = 64 * (Suc (XofReader.counter r) - XofReader.counter r0)" by simp
    from assms c p' True show ?thesis
      by (simp add: refill_def reader_at_def write_words_all length_compress reader_block_def)
  qed
qed

lemma block_bytes_stream:
  assumes "reader_at r0 p r" and "outputBlockOffset r + n \<le> 64"
  shows "map (\<lambda>i. word_byte (outputBlock r ! ((outputBlockOffset r + i) div 4)) ((outputBlockOffset r + i) mod 4)) [0..<n]
    = map (reader_stream r0) [p..<p + n]"
proof (cases "n = 0")
  case True
  then show ?thesis by simp
next
  case False
  with assms(2) have q: "outputBlockOffset r < 64" by simp
  define d where "d = XofReader.counter r - XofReader.counter r0"
  from assms(1) q have p: "p + 64 = 64 * d + outputBlockOffset r"
    and blk: "outputBlock r = reader_block r0 (XofReader.counter r - 1)"
    and le: "XofReader.counter r0 \<le> XofReader.counter r" and len: "length (outputBlock r) = 16"
    by (simp_all add: reader_at_def d_def length_reader_block)
  from p q obtain d' where d': "d = Suc d'" by (cases d) simp_all
  with p have p': "p = 64 * d' + outputBlockOffset r" by simp
  from d' le have c: "XofReader.counter r0 + d' = XofReader.counter r - 1" by (simp add: d_def)
  have "reader_stream r0 (p + i) =
      word_byte (outputBlock r ! ((outputBlockOffset r + i) div 4)) ((outputBlockOffset r + i) mod 4)"
    if "i < n" for i
  proof -
    from that assms(2) have lt: "outputBlockOffset r + i < 64" by simp
    then have "(p + i) div 64 = d'" "(p + i) mod 64 = outputBlockOffset r + i"
      unfolding p' by (simp_all add: add.assoc)
    then have "reader_stream r0 (p + i) = words_bytes (outputBlock r) ! (outputBlockOffset r + i)"
      by (simp add: reader_stream_def c blk)
    also have "\<dots> = word_byte (outputBlock r ! ((outputBlockOffset r + i) div 4)) ((outputBlockOffset r + i) mod 4)"
      using lt len by (simp add: words_bytes_nth)
    finally show ?thesis .
  qed
  moreover have "[p..<p + n] = map (\<lambda>i. p + i) [0..<n]"
    using map_add_upt [of p n] by (simp add: add.commute)
  ultimately show ?thesis by (simp add: comp_def)
qed

lemma advance_at:
  assumes "reader_at r0 p r" and "outputBlockOffset r < 64" and "outputBlockOffset r + n \<le> 64"
  shows "reader_at r0 (p + n) (r\<lparr>outputBlockOffset := outputBlockOffset r + n\<rparr>)"
  using assms by (simp add: reader_at_def length_reader_block)


lemma read_step:
  assumes at: "reader_at r0 p r1" and q: "outputBlockOffset r1 < 64"
    and n: "outputBlockOffset r1 + n \<le> 64" "oo + n \<le> lim" and tl: "length out = lim"
    and out1: "out1 = take oo out @
       map (\<lambda>i. word_byte (outputBlock r1 ! ((outputBlockOffset r1 + i) div 4)) ((outputBlockOffset r1 + i) mod 4)) [0..<n]
       @ drop (oo + n) out"
    and ih: "\<And>p'. reader_at r0 p' (r1\<lparr>outputBlockOffset := outputBlockOffset r1 + n\<rparr>) \<Longrightarrow> oo + n \<le> lim \<Longrightarrow>
       length out1 = lim \<Longrightarrow>
       fst (XofReader_read_loop (r1\<lparr>outputBlockOffset := outputBlockOffset r1 + n\<rparr>) out1 (oo + n) lim) =
         take (oo + n) out1 @ map (reader_stream r0) [p'..<p' + (lim - (oo + n))] \<and>
       reader_at r0 (p' + (lim - (oo + n)))
         (snd (XofReader_read_loop (r1\<lparr>outputBlockOffset := outputBlockOffset r1 + n\<rparr>) out1 (oo + n) lim))"
  shows "fst (XofReader_read_loop (r1\<lparr>outputBlockOffset := outputBlockOffset r1 + n\<rparr>) out1 (oo + n) lim) =
         take oo out @ map (reader_stream r0) [p..<p + (lim - oo)] \<and>
       reader_at r0 (p + (lim - oo))
         (snd (XofReader_read_loop (r1\<lparr>outputBlockOffset := outputBlockOffset r1 + n\<rparr>) out1 (oo + n) lim))"
proof -
  have o1: "out1 = take oo out @ map (reader_stream r0) [p..<p + n] @ drop (oo + n) out"
    unfolding out1 block_bytes_stream [OF at n(1)] ..
  from n(2) tl have l1: "length out1 = lim" by (simp add: o1)
  from n(2) tl have t1: "take (oo + n) out1 = take oo out @ map (reader_stream r0) [p..<p + n]"
    by (simp add: o1)
  have u: "[p..<p + (lim - oo)] = [p..<p + n] @ [p + n..<p + n + (lim - (oo + n))]"
    using n(2) upt_add_eq_append [of p "p + n" "lim - (oo + n)"] by simp
  from n(2) have e: "p + n + (lim - (oo + n)) = p + (lim - oo)" by simp
  from ih [OF advance_at [OF at q n(1)] n(2) l1] show ?thesis
    unfolding t1 e u by simp
qed

lemma read_loop_stream:
  "reader_at r0 p r \<Longrightarrow> oo \<le> lim \<Longrightarrow> length out = lim \<Longrightarrow>
   fst (XofReader_read_loop r out oo lim) = take oo out @ map (reader_stream r0) [p..<p + (lim - oo)] \<and>
   reader_at r0 (p + (lim - oo)) (snd (XofReader_read_loop r out oo lim))"
proof (induction r out oo lim arbitrary: p rule: XofReader_read_loop.induct)
  case (1 r out oo lim)
  show ?case
  proof (cases "oo < lim")
    case False
    with "1.prems" show ?thesis
      using XofReader_read_loop.simps [of r out oo lim] by simp
  next
    case True
    let ?r1 = "refill r"
    let ?q = "outputBlockOffset ?r1"
    let ?n = "min (64 - ?q) (lim - oo)"
    from refill_at [OF "1.prems"(1)] have at: "reader_at r0 p ?r1" and q: "?q < 64"
      by simp_all
    from q True have n: "?q + ?n \<le> 64" "oo + ?n \<le> lim" by simp_all
    show ?thesis
    proof (cases "?q mod 4 = 0 \<and> 4 \<le> ?n")
      case aligned: True
      let ?m = "?n div 4"
      let ?out1 = "writeLittleEndianBytesPartial (outputBlock ?r1) (?q div 4) out oo (?m * 4)"
      have "?m * 4 \<le> ?n" by (rule div_times_less_eq_dividend)
      with n have nm: "?q + ?m * 4 \<le> 64" "oo + ?m * 4 \<le> lim" by linarith+
      from nm(2) "1.prems"(3) aligned have o1: "?out1 = take oo out @
          map (\<lambda>i. word_byte (outputBlock ?r1 ! ((?q + i) div 4)) ((?q + i) mod 4)) [0..<?m * 4]
          @ drop (oo + ?m * 4) out"
        using writeLittleEndianBytesPartial_words [of oo ?m out ?q "outputBlock ?r1"]
        by (simp add: mult.commute)
      have eq: "XofReader_read_loop r out oo lim =
          XofReader_read_loop (?r1\<lparr>outputBlockOffset := ?q + ?m * 4\<rparr>) ?out1 (oo + ?m * 4) lim"
        by (simp only: XofReader_read_loop.simps [of r out oo lim] Let_def if_P [OF True] if_P [OF aligned])
      show ?thesis
        unfolding eq
        by (rule read_step [OF at q nm "1.prems"(3) o1])
          (rule "1.IH"(1) [OF True refl refl refl refl refl aligned refl refl])
    next
      case False
      let ?out1 = "copy_bytes (outputBlock ?r1) ?q out oo ?n"
      from n(2) "1.prems"(3) have o1: "?out1 = take oo out @
          map (\<lambda>i. word_byte (outputBlock ?r1 ! ((?q + i) div 4)) ((?q + i) mod 4)) [0..<?n]
          @ drop (oo + ?n) out"
        by (simp add: copy_bytes_eq)
      have eq: "XofReader_read_loop r out oo lim =
          XofReader_read_loop (?r1\<lparr>outputBlockOffset := ?q + ?n\<rparr>) ?out1 (oo + ?n) lim"
        by (simp only: XofReader_read_loop.simps [of r out oo lim] Let_def if_P [OF True] if_not_P [OF False])
      show ?thesis
        unfolding eq
        by (rule read_step [OF at q n "1.prems"(3) o1])
          (rule "1.IH"(2) [OF True refl refl refl refl refl False])
    qed
  qed
qed

lemma reader_at_new: "reader_at (XofReader_new cv bw c bl fl) 0 (XofReader_new cv bw c bl fl)"
  by (simp add: reader_at_def XofReader_new_def)

lemma XofReader_read_stream:
  assumes "reader_at r0 p r"
  shows "fst (XofReader_read r n) = map (reader_stream r0) [p..<p + n]"
    and "reader_at r0 (p + n) (snd (XofReader_read r n))"
  using read_loop_stream [OF assms, of 0 n "replicate n 0"] by (simp_all add: XofReader_read_def)

lemma reads_stream:
  "reader_at r0 p r \<Longrightarrow> reads r ns = map (reader_stream r0) [p..<p + sum_list ns]"
proof (induction ns arbitrary: p r)
  case Nil
  then show ?case by simp
next
  case (Cons n ns)
  have u: "[p..<p + (n + sum_list ns)] = [p..<p + n] @ [p + n..<p + n + sum_list ns]"
    using upt_add_eq_append [of p "p + n" "sum_list ns"] by (simp add: add.assoc)
  from XofReader_read_stream [OF Cons.prems, of n] Cons.IH [of "p + n" "snd (XofReader_read r n)"]
  show ?case by (simp add: split_beta u)
qed

section \<open>Digests and long outputs\<close>

lemma Hasher_finalize_32:
  "fst (Hasher_finalize h 32) =
   words_bytes (compress (Output.inputCv (fst (finalizeOutput h))) 0 (Output.blockWords (fst (finalizeOutput h))) 0
     False (Output.counter (fst (finalizeOutput h))) (Output.blockLen (fst (finalizeOutput h)))
     (Output.flags (fst (finalizeOutput h)) OR ROOT))"
  (is "_ = words_bytes ?c")
proof -
  have l: "length ?c = 8" by (simp add: length_compress)
  have w: "write_words (replicate 16 0) 0 ?c = ?c @ replicate 8 0"
    by (simp add: write_words_fits l)
  have s: "subarray (words_bytes (?c @ replicate 8 0)) 0 32 = words_bytes ?c"
    using subarray_prefix [of 32 "words_bytes (?c @ replicate 8 0)"]
    by (simp add: words_bytes_append length_words_bytes l)
  have "fst (Hasher_finalize h 32) =
      set_words (replicate 32 0) (subarray (words_bytes (write_words (replicate 16 0) 0 ?c)) 0 (int 32)) 0"
    by (simp add: Hasher_finalize_def IS_LITTLE_ENDIAN_def Let_def split_beta)
  also have "\<dots> = words_bytes ?c"
    by (simp add: w s set_words_def length_words_bytes l)
  finally show ?thesis .
qed

lemma Hasher_finalize_state: "snd (Hasher_finalize h 32) = snd (finalizeOutput h)"
  by (simp add: Hasher_finalize_def IS_LITTLE_ENDIAN_def Let_def split_beta)

lemma finalizeXof_reader:
  "fst (finalizeXof h) =
   XofReader_new (Output.inputCv (fst (finalizeOutput h))) (Output.blockWords (fst (finalizeOutput h)))
     (Output.counter (fst (finalizeOutput h))) (Output.blockLen (fst (finalizeOutput h)))
     (Output.flags (fst (finalizeOutput h)))"
  "snd (finalizeXof h) = snd (finalizeOutput h)"
  by (simp_all add: finalizeXof_def split_beta)

lemma XofReader_new_read:
  "fst (XofReader_read (XofReader_new cv bw c bl fl) n) =
   map (\<lambda>o'. words_bytes (compress cv 0 bw 0 True (c + o' div 64) bl (fl OR ROOT)) ! (o' mod 64)) [0..<n]"
proof -
  have "reader_stream (XofReader_new cv bw c bl fl) =
      (\<lambda>o'. words_bytes (compress cv 0 bw 0 True (c + o' div 64) bl (fl OR ROOT)) ! (o' mod 64))"
    by (rule ext) (simp add: reader_stream_def reader_block_def XofReader_new_def)
  with XofReader_read_stream(1) [OF reader_at_new, of cv bw c bl fl n] show ?thesis by simp
qed

lemma Hasher_finalize_long:
  assumes "64 < n"
  shows "fst (Hasher_finalize h n) = fst (XofReader_read (fst (finalizeXof (snd (finalizeOutput h)))) n)"
proof -
  have "length (fst (XofReader_read (fst (finalizeXof h')) n)) = n" for h'
    by (simp add: finalizeXof_reader XofReader_new_read)
  then have "set_words (replicate n 0) (fst (XofReader_read (fst (finalizeXof h')) n)) 0 =
      fst (XofReader_read (fst (finalizeXof h')) n)" for h'
    by (simp add: set_words_def)
  with assms show ?thesis
    by (simp add: Hasher_finalize_def Let_def split_beta)
qed

lemma update_1025:
  "\<exists>h. Hasher_update (Hasher_new None None) (zeros 1025) = Some (Inr h) \<and> cvStackLen h = 1 \<and>
     chunkState h = \<lparr>chainingValue = IV, chunkCounter = 1, ChunkState.blockWords = replicate 16 0,
        ChunkState.blockLen = 1, blocksCompressed = 0, ChunkState.flags = 0\<rparr> \<and>
     keyWords h = IV \<and> Hasher.flags h = 0"
  by (simp add: update_eval push_eval cong: if_weak_cong sum.case_cong_weak option.case_cong_weak)

lemma open_chunk_output:
  "ChunkState_output \<lparr>chainingValue = IV, chunkCounter = 1, ChunkState.blockWords = replicate 16 0,
        ChunkState.blockLen = 1, blocksCompressed = 0, ChunkState.flags = 0\<rparr> =
   (\<lparr>Output.inputCv = IV, Output.blockWords = replicate 16 0, Output.blockLen = 1, Output.counter = 1,
     Output.flags = CHUNK_START OR CHUNK_END\<rparr>,
    \<lparr>chainingValue = IV, chunkCounter = 1, ChunkState.blockWords = replicate 16 0,
        ChunkState.blockLen = 1, blocksCompressed = 0, ChunkState.flags = 0\<rparr>)"
  by (simp add: ChunkState_output_def zero_pad_zeros startFlag_def Let_def)

lemma finalize_1025:
  assumes "cvStackLen h = 1"
    and "chunkState h = \<lparr>chainingValue = IV, chunkCounter = 1, ChunkState.blockWords = replicate 16 0,
        ChunkState.blockLen = 1, blocksCompressed = 0, ChunkState.flags = 0\<rparr>"
    and "keyWords h = IV" and "Hasher.flags h = 0"
  shows "\<exists>pb. fst (finalizeOutput h) = \<lparr>Output.inputCv = IV, Output.blockWords = pb, Output.blockLen = 64,
        Output.counter = 0, Output.flags = PARENT\<rparr>"
    and "cvStackLen (snd (finalizeOutput h)) = 0"
    and "fst (finalizeOutput (snd (finalizeOutput h))) =
      \<lparr>Output.inputCv = IV, Output.blockWords = replicate 16 0, Output.blockLen = 1, Output.counter = 1,
       Output.flags = CHUNK_START OR CHUNK_END\<rparr>"
proof -
  from assms(1) have pos: "0 < cvStackLen h" by simp
  from finalizeOutput_root [OF pos] obtain pb where
    fo: "finalizeOutput h =
     (\<lparr>Output.inputCv = keyWords h, Output.blockWords = pb, Output.blockLen = BLOCK_LEN,
       Output.counter = 0, Output.flags = Hasher.flags h OR PARENT\<rparr>,
      h\<lparr>chunkState := snd (ChunkState_output (chunkState h)), cvStackLen := 0\<rparr>)"
    by blast
  with assms show "\<exists>pb. fst (finalizeOutput h) = \<lparr>Output.inputCv = IV, Output.blockWords = pb, Output.blockLen = 64,
        Output.counter = 0, Output.flags = PARENT\<rparr>"
    by (simp add: BLOCK_LEN_def)
  from fo show "cvStackLen (snd (finalizeOutput h)) = 0" by simp
  have a: "ChunkState_output (chunkState h) =
      (\<lparr>Output.inputCv = IV, Output.blockWords = replicate 16 0, Output.blockLen = 1, Output.counter = 1,
        Output.flags = CHUNK_START OR CHUNK_END\<rparr>, chunkState h)"
    unfolding assms(2) by (rule open_chunk_output)
  from fo have "snd (finalizeOutput h) = h\<lparr>chunkState := chunkState h, cvStackLen := 0\<rparr>"
    by (simp add: a)
  then show "fst (finalizeOutput (snd (finalizeOutput h))) =
      \<lparr>Output.inputCv = IV, Output.blockWords = replicate 16 0, Output.blockLen = 1, Output.counter = 1,
       Output.flags = CHUNK_START OR CHUNK_END\<rparr>"
    by (simp add: finalizeOutput_single a)
qed

section \<open>Evaluating the compression function\<close>

lemma g_steps:
  "g s a b c d mx my =
     g_xor_rot (g_sum (g_xor_rot (g_add
       (g_xor_rot (g_sum (g_xor_rot (g_add s a b mx) d a 16) c d) b c 12)
        a b my) d a 8) c d) b c 7"
  by (simp add: g_def g_add_def g_sum_def g_xor_rot_def Let_def)

lemma round_fn_steps:
  "round_fn s m p =
     g (g (g (g (g (g (g (g s
       0 4 8 12 (m ! (p ! 0)) (m ! (p ! 1)))
       1 5 9 13 (m ! (p ! 2)) (m ! (p ! 3)))
       2 6 10 14 (m ! (p ! 4)) (m ! (p ! 5)))
       3 7 11 15 (m ! (p ! 6)) (m ! (p ! 7)))
       0 5 10 15 (m ! (p ! 8)) (m ! (p ! 9)))
       1 6 11 12 (m ! (p ! 10)) (m ! (p ! 11)))
       2 7 8 13 (m ! (p ! 12)) (m ! (p ! 13)))
       3 4 9 14 (m ! (p ! 14)) (m ! (p ! 15))"
  by (simp add: round_fn_def Let_def)

lemma list_update_numeral: "(x # xs)[numeral n := y] = x # xs[pred_numeral n := y]"
  by (simp add: numeral_eq_Suc)

lemmas g_eval = g_steps g_add_def g_sum_def g_xor_rot_def rotr_def list_update_numeral

lemma empty_round1: "round_fn empty_state0 empty_block [0, 1, 2, 3, 4, 5, 6, 7, 8, 9, 10, 11, 12, 13, 14, 15] = empty_state1"
  by (simp add: round_fn_steps empty_state0_def empty_state1_def empty_block_def g_eval)

lemma empty_round2: "round_fn empty_state1 empty_block [2, 6, 3, 10, 7, 0, 4, 13, 1, 11, 12, 5, 9, 14, 15, 8] = empty_state2"
  by (simp add: round_fn_steps empty_state1_def empty_state2_def empty_block_def g_eval)

lemma empty_round3: "round_fn empty_state2 empty_block [3, 4, 10, 12, 13, 2, 7, 14, 6, 5, 9, 0, 11, 15, 8, 1] = empty_state3"
  by (simp add: round_fn_steps empty_state2_def empty_state3_def empty_block_def g_eval)

lemma empty_round4: "round_fn empty_state3 empty_block [10, 7, 12, 9, 14, 3, 13, 15, 4, 0, 11, 2, 5, 8, 1, 6] = empty_state4"
  by (simp add: round_fn_steps empty_state3_def empty_state4_def empty_block_def g_eval)

lemma empty_round5: "round_fn empty_state4 empty_block [12, 13, 9, 11, 15, 10, 14, 8, 7, 2, 5, 3, 0, 1, 6, 4] = empty_state5"
  by (simp add: round_fn_steps empty_state4_def empty_state5_def empty_block_def g_eval)

lemma empty_round6: "round_fn empty_state5 empty_block [9, 14, 11, 5, 8, 12, 15, 1, 13, 3, 0, 10, 2, 6, 4, 7] = empty_state6"
  by (simp add: round_fn_steps empty_state5_def empty_state6_def empty_block_def g_eval)

lemma empty_round7: "round_fn empty_state6 empty_block [11, 15, 5, 0, 1, 9, 8, 6, 14, 10, 2, 12, 3, 4, 7, 13] = empty_state7"
  by (simp add: round_fn_steps empty_state6_def empty_state7_def empty_block_def g_eval)

lemma empty_rounds: "compress_rounds empty_state0 empty_block = empty_state7"
  by (simp only: compress_rounds_def spec_rows_def foldl_Cons foldl_Nil empty_round1 empty_round2
      empty_round3 empty_round4 empty_round5 empty_round6 empty_round7)

section \<open>The empty input\<close>

lemma hashPureJS_empty:
  "hashPureJS \<lparr>byteOffset = off, bytes = []\<rparr> 32 = Inr (words_bytes empty_digest_words)"
  by (simp add: hashPureJS_def emit_output_def out_array_def write_words_all length_compress
      IS_LITTLE_ENDIAN_def empty_digest_words_def)

lemma finalizeOutput_fresh:
  "finalizeOutput (Hasher_new None None) =
     (\<lparr>Output.inputCv = IV, Output.blockWords = replicate 16 0, Output.blockLen = 0,
       Output.counter = 0, Output.flags = CHUNK_START OR CHUNK_END\<rparr>,
      Hasher_new None None)"
  by (simp add: finalizeOutput_def Hasher_new_def ChunkState_output_def ChunkState_new_def
      zero_pad_zeros startFlag_def Let_def)

lemma Hasher_finalize_empty:
  "fst (Hasher_finalize (Hasher_new None None) 32) = words_bytes empty_digest_words"
proof -
  have l: "length empty_digest_words = 8"
    by (simp add: empty_digest_words_def length_compress)
  have w: "write_words (replicate 16 0) 0 empty_digest_words = empty_digest_words @ replicate 8 0"
    by (simp add: write_words_fits l)
  have s: "subarray (words_bytes (empty_digest_words @ replicate 8 0)) 0 32 = words_bytes empty_digest_words"
    using subarray_prefix [of 32 "words_bytes (empty_digest_words @ replicate 8 0)"]
    by (simp add: words_bytes_append length_words_bytes l)
  have "fst (Hasher_finalize (Hasher_new None None) 32) =
      set_words (replicate 32 0)
        (subarray (words_bytes (write_words (replicate 16 0) 0 empty_digest_words)) 0 (int 32)) 0"
    by (simp add: Hasher_finalize_def finalizeOutput_fresh IS_LITTLE_ENDIAN_def Let_def
        empty_digest_words_def flags_values)
  also have "\<dots> = words_bytes empty_digest_words"
    by (simp add: w s set_words_def length_words_bytes l)
  finally show ?thesis .
qed

lemma empty_digest_value:
  "empty_digest_words = [0xB94913AF, 0xA6A1F9F5, 0xEA4D40A0, 0x49C9DC36, 0xC925CB9B, 0xB712C1AD, 0xCA939ACC, 0x62321FE4]"
proof -
  have init: "compress_init (words_at IV 0 8) 0 0 (CHUNK_START OR CHUNK_END OR ROOT) = empty_state0"
    by (simp add: compress_init_def words_at_def IV_def upt_8 empty_state0_def flags_values)
  have blk: "words_at (replicate 16 0) 0 16 = empty_block"
    by (simp add: words_at_def upt_16 empty_block_def)
  show ?thesis
    unfolding empty_digest_words_def compress_def compress_words_def init blk empty_rounds
    by (simp add: compress_out_def empty_state7_def words_at_def IV_def upt_8)
qed

lemma empty_digest_bytes:
  "words_bytes [0xB94913AF, 0xA6A1F9F5, 0xEA4D40A0, 0x49C9DC36, 0xC925CB9B, 0xB712C1AD, 0xCA939ACC, 0x62321FE4] =
   [0xaf, 0x13, 0x49, 0xb9, 0xf5, 0xf9, 0xa1, 0xa6, 0xa0, 0x40, 0x4d, 0xea, 0x36, 0xdc, 0xc9, 0x49, 0x9b, 0xcb, 0x25, 0xc9, 0xad, 0xc1, 0x12, 0xb7, 0xcc, 0x9a, 0x93, 0xca, 0xe4, 0x1f, 0x32, 0x62]"
  by (simp add: words_bytes_def word_byte_def)

section \<open>Claims\<close>

text \<open>
  Claim C1.  The claim is that \<open>finalize\<close> and \<open>finalizeXof\<close> leave the stack, its
  length and the chunk state of the hasher as they were.  For the hasher that has taken in
  1025 zero bytes this fails: the stack length is 1 before and 0 after either call, because
  \<open>finalizeOutput\<close> counts the field \<open>cvStackLen\<close> itself down to zero.  The first
  \<open>finalize\<close> hashes a parent block as the root; a second one, on the hasher the first
  left behind, hashes the open chunk alone.
\<close>

theorem finalize_resets_stack:
  "\<exists>h pb. Hasher_update (Hasher_new None None) (zeros 1025) = Some (Inr h)
     \<and> cvStackLen h = 1
     \<and> cvStackLen (snd (Hasher_finalize h 32)) = 0
     \<and> cvStackLen (snd (finalizeXof h)) = 0
     \<and> fst (Hasher_finalize h 32) = words_bytes (compress IV 0 pb 0 False 0 64 (PARENT OR ROOT))
     \<and> fst (Hasher_finalize (snd (Hasher_finalize h 32)) 32) =
         words_bytes (compress IV 0 (replicate 16 0) 0 False 1 1 (CHUNK_START OR CHUNK_END OR ROOT))"
proof -
  from update_1025 obtain h where
    u: "Hasher_update (Hasher_new None None) (zeros 1025) = Some (Inr h)" and
    h: "cvStackLen h = 1"
      "chunkState h = \<lparr>chainingValue = IV, chunkCounter = 1, ChunkState.blockWords = replicate 16 0,
        ChunkState.blockLen = 1, blocksCompressed = 0, ChunkState.flags = 0\<rparr>"
      "keyWords h = IV" "Hasher.flags h = 0"
    by blast
  from finalize_1025(1) [OF h] obtain pb where
    root: "fst (finalizeOutput h) = \<lparr>Output.inputCv = IV, Output.blockWords = pb, Output.blockLen = 64,
        Output.counter = 0, Output.flags = PARENT\<rparr>"
    by blast
  have "fst (Hasher_finalize h 32) = words_bytes (compress IV 0 pb 0 False 0 64 (PARENT OR ROOT))"
    by (simp add: Hasher_finalize_32 root)
  moreover have "fst (Hasher_finalize (snd (Hasher_finalize h 32)) 32) =
      words_bytes (compress IV 0 (replicate 16 0) 0 False 1 1 (CHUNK_START OR CHUNK_END OR ROOT))"
    by (simp add: Hasher_finalize_32 Hasher_finalize_state finalize_1025(3) [OF h] or.assoc)
  moreover have "cvStackLen (snd (Hasher_finalize h 32)) = 0" "cvStackLen (snd (finalizeXof h)) = 0"
    by (simp_all add: Hasher_finalize_state finalizeXof_reader finalize_1025(2) [OF h])
  ultimately show ?thesis using u h(1) by blast
qed

text \<open>
  Claim C2.  After any number of chunks has been pushed, the stack of a hasher that arose
  from a new hasher by update passes holds exactly \<open>popcount\<close> of the chunk counter
  entries; and whenever the merge loop of the next push returns, every pass of it that pops
  finds the stack non-empty.
\<close>

theorem cv_stack_popcount:
  assumes "updated h"
  shows "cvStackLen h = int (popcount (chunkCounter (chunkState h)))
    \<and> (\<forall>cs parentBlock parentCv newCv newCvOffset s' k.
         addChunkCv_loop (h\<lparr>chunkState := cs\<rparr>, parentBlock, parentCv, newCv, newCvOffset,
            chunkCounter (chunkState h) + 1) = Some s'
         \<longrightarrow> (\<forall>j\<le>k. merge_cond ((merge_body ^^ j)
                (h\<lparr>chunkState := cs\<rparr>, parentBlock, parentCv, newCv, newCvOffset,
                 chunkCounter (chunkState h) + 1)))
         \<longrightarrow> 0 < cvStackLen (merge_hasher ((merge_body ^^ k)
                (h\<lparr>chunkState := cs\<rparr>, parentBlock, parentCv, newCv, newCvOffset,
                 chunkCounter (chunkState h) + 1))))"
proof (intro conjI allI impI)
  from updated_inv [OF assms] have inv: "stack_inv h" .
  then show "cvStackLen h = int (popcount (chunkCounter (chunkState h)))"
    by (simp add: stack_inv_def)
  fix cs :: ChunkState and parentBlock parentCv newCv :: "u32 list" and newCvOffset :: nat
    and s' :: merge_state and k :: nat
  let ?c = "chunkCounter (chunkState h)"
  let ?s = "(h\<lparr>chunkState := cs\<rparr>, parentBlock, parentCv, newCv, newCvOffset, ?c + 1)"
  assume ret: "addChunkCv_loop ?s = Some s'" and conds: "\<forall>j\<le>k. merge_cond ((merge_body ^^ j) ?s)"
  from addChunkCv_loop_returns [OF ret] have nz: "Suc ?c mod 2 ^ 32 \<noteq> 0"
    by (simp add: merge_total_def)
  from inv have "?c < 2 ^ 32" by (simp add: stack_inv_def)
  with nz have "Suc ?c < 2 ^ 32" by (cases "Suc ?c = 2 ^ 32") auto
  then have m: "Suc ?c mod 2 ^ 32 = Suc ?c" by simp
  from merge_cond_steps [OF conds] nz have "k < ctz (Suc ?c mod 2 ^ 32)" by (simp add: merge_total_def)
  then have "k < ctz (Suc ?c)" unfolding m .
  also have "\<dots> \<le> popcount ?c" by (rule ctz_le_popcount)
  finally have "int k < cvStackLen h" using inv by (simp add: stack_inv_def)
  moreover have "cvStackLen (merge_hasher ((merge_body ^^ k) ?s)) = cvStackLen h - int k"
    by (subst merge_body_funpow_len) (simp add: merge_hasher_def)
  ultimately show "0 < cvStackLen (merge_hasher ((merge_body ^^ k) ?s))"
    by simp
qed

theorem cv_stack_popcount_witness:
  "\<exists>h s'. Hasher_update (Hasher_new None None) (zeros 1025) = Some (Inr h)
     \<and> updated h
     \<and> chunkCounter (chunkState h) = 1
     \<and> cvStackLen h = int (popcount (chunkCounter (chunkState h)))
     \<and> addChunkCv_loop (h, replicate 16 0, replicate 8 0, replicate 8 0, 0, chunkCounter (chunkState h) + 1) = Some s'
     \<and> merge_cond (h, replicate 16 0, replicate 8 0, replicate 8 0, 0, chunkCounter (chunkState h) + 1)
     \<and> 0 < cvStackLen (merge_hasher (h, replicate 16 0, replicate 8 0, replicate 8 0, 0,
           chunkCounter (chunkState h) + 1))"
proof -
  from update_1025 obtain h where
    u: "Hasher_update (Hasher_new None None) (zeros 1025) = Some (Inr h)" and
    h: "cvStackLen h = 1"
      "chunkState h = \<lparr>chainingValue = IV, chunkCounter = 1, ChunkState.blockWords = replicate 16 0,
        ChunkState.blockLen = 1, blocksCompressed = 0, ChunkState.flags = 0\<rparr>"
    by blast
  let ?s = "(h, replicate 16 0, replicate 8 0, replicate 8 0, 0, chunkCounter (chunkState h) + 1)"
  have up: "updated h" by (rule Hasher_update_updated [OF u updated.new])
  have c: "chunkCounter (chunkState h) = 1" by (simp add: h(2))
  have mc: "merge_cond ?s" by (simp add: merge_cond_def js_and_low_def c)
  have "\<exists>s'. addChunkCv_loop ?s = Some s'"
    by (simp add: c addChunkCv_loop.simps merge_cond_def merge_body_def js_and_low_def js_ushr_def
        popCv_def split_beta Let_def cong: if_weak_cong)
  then obtain s' where ret: "addChunkCv_loop ?s = Some s'" ..
  have same: "h\<lparr>chunkState := chunkState h\<rparr> = h" by simp
  from cv_stack_popcount [OF up] have
    len: "cvStackLen h = int (popcount (chunkCounter (chunkState h)))" and
    pops: "\<And>cs parentBlock parentCv newCv newCvOffset s' k.
         addChunkCv_loop (h\<lparr>chunkState := cs\<rparr>, parentBlock, parentCv, newCv, newCvOffset,
            chunkCounter (chunkState h) + 1) = Some s' \<Longrightarrow>
         \<forall>j\<le>k. merge_cond ((merge_body ^^ j)
                (h\<lparr>chunkState := cs\<rparr>, parentBlock, parentCv, newCv, newCvOffset,
                 chunkCounter (chunkState h) + 1)) \<Longrightarrow>
         0 < cvStackLen (merge_hasher ((merge_body ^^ k)
                (h\<lparr>chunkState := cs\<rparr>, parentBlock, parentCv, newCv, newCvOffset,
                 chunkCounter (chunkState h) + 1)))"
    by blast+
  from pops [of "chunkState h" "replicate 16 0" "replicate 8 0" "replicate 8 0" 0 s' 0] ret mc
  have "0 < cvStackLen (merge_hasher ?s)" by (simp add: same)
  with u up c len ret mc show ?thesis by blast
qed

text \<open>
  Claim C3.  The claim is that \<open>finalize(N)\<close> is the first \<open>N\<close> bytes of the stream
  that \<open>finalizeXof().read(N)\<close> gives on a hasher prepared the same way.  For 1025 zero
  bytes and \<open>N = 65\<close> the two are streams of different seeds: the reader of
  \<open>finalizeXof\<close> is seeded with the root parent block (block length 64, counter 0, flags
  \<open>PARENT OR ROOT\<close>), while \<open>finalize\<close>, which calls \<open>finalizeOutput\<close> a second time
  on a stack already counted down to zero, reads from the open chunk alone (block length 1,
  counter starting at 1, flags \<open>CHUNK_START OR CHUNK_END OR ROOT\<close>).
\<close>

theorem finalize_long_reads_open_chunk:
  "\<exists>h pb. Hasher_update (Hasher_new None None) (zeros 1025) = Some (Inr h)
     \<and> fst (XofReader_read (fst (finalizeXof h)) 65) =
         map (\<lambda>o'. words_bytes (compress IV 0 pb 0 True (o' div 64) 64 (PARENT OR ROOT)) ! (o' mod 64)) [0..<65]
     \<and> fst (Hasher_finalize h 65) =
         map (\<lambda>o'. words_bytes (compress IV 0 (replicate 16 0) 0 True (1 + o' div 64) 1
                     (CHUNK_START OR CHUNK_END OR ROOT)) ! (o' mod 64)) [0..<65]"
proof -
  from update_1025 obtain h where
    u: "Hasher_update (Hasher_new None None) (zeros 1025) = Some (Inr h)" and
    h: "cvStackLen h = 1"
      "chunkState h = \<lparr>chainingValue = IV, chunkCounter = 1, ChunkState.blockWords = replicate 16 0,
        ChunkState.blockLen = 1, blocksCompressed = 0, ChunkState.flags = 0\<rparr>"
      "keyWords h = IV" "Hasher.flags h = 0"
    by blast
  from finalize_1025(1) [OF h] obtain pb where
    root: "fst (finalizeOutput h) = \<lparr>Output.inputCv = IV, Output.blockWords = pb, Output.blockLen = 64,
        Output.counter = 0, Output.flags = PARENT\<rparr>"
    by blast
  have "fst (XofReader_read (fst (finalizeXof h)) 65) =
      map (\<lambda>o'. words_bytes (compress IV 0 pb 0 True (o' div 64) 64 (PARENT OR ROOT)) ! (o' mod 64)) [0..<65]"
    unfolding finalizeXof_reader XofReader_new_read root by simp
  moreover have "fst (Hasher_finalize h 65) =
      map (\<lambda>o'. words_bytes (compress IV 0 (replicate 16 0) 0 True (1 + o' div 64) 1
                     (CHUNK_START OR CHUNK_END OR ROOT)) ! (o' mod 64)) [0..<65]"
    unfolding Hasher_finalize_long [of 65 h, simplified] finalizeXof_reader XofReader_new_read
      finalize_1025(3) [OF h]
    by (simp add: or.assoc)
  ultimately show ?thesis using u by blast
qed

text \<open>
  Claim C4.  The claim is that feeding \<open>A\<close> and then \<open>B\<close> gives the digest of feeding
  \<open>A || B\<close> at once.  With 128 zero bytes the single update returns a hasher, but after an
  update with 1 byte the update with the other 127 bytes ends in a \<open>RangeError\<close>: once the
  first block is full, the next 64 bytes start at offset 63 of their array, and
  \<open>ChunkState.update\<close> makes a 32-bit view there without looking at the alignment.
\<close>

theorem update_split_unaligned:
  "(\<exists>h. Hasher_update (Hasher_new None None) (zeros 128) = Some (Inr h))
   \<and> (\<exists>h1. Hasher_update (Hasher_new None None) (zeros 1) = Some (Inr h1)
          \<and> Hasher_update h1 (zeros 127) = Some (Inl RangeError))"
  by (simp add: update_eval cong: if_weak_cong sum.case_cong_weak option.case_cong_weak)

text \<open>
  Claim C5.  The reader that \<open>finalizeXof\<close> returns for a hasher built by update passes is
  a stream: whatever the lengths of the successive \<open>read\<close> calls, the arrays returned,
  put end to end, are the first bytes of one sequence that depends on the root seed only,
  and byte \<open>o\<close> of that sequence is byte \<open>o mod 64\<close> of the sixteen-word output of
  compressing the seed with the counter \<open>o div 64\<close> and the flag \<open>ROOT\<close>.
\<close>

theorem xof_reader_stream:
  assumes "updated h"
  shows "reads (fst (finalizeXof h)) ns = map (xof_stream (fst (finalizeOutput h))) [0..<sum_list ns]"
proof -
  let ?seed = "fst (finalizeOutput h)"
  let ?r0 = "XofReader_new (Output.inputCv ?seed) (Output.blockWords ?seed) (Output.counter ?seed)
      (Output.blockLen ?seed) (Output.flags ?seed)"
  have r: "fst (finalizeXof h) = ?r0"
    by (simp add: finalizeXof_def split_beta)
  have "reader_stream ?r0 = xof_stream ?seed"
    by (rule ext) (simp add: reader_stream_def reader_block_def xof_stream_def XofReader_new_def
        finalizeOutput_counter [OF assms])
  with reads_stream [OF reader_at_new, of "Output.inputCv ?seed" "Output.blockWords ?seed"
      "Output.counter ?seed" "Output.blockLen ?seed" "Output.flags ?seed" ns]
  show ?thesis by (simp add: r)
qed

theorem xof_reader_stream_witness:
  "updated (Hasher_new None None)
   \<and> reads (fst (finalizeXof (Hasher_new None None))) [3, 2] =
     map (xof_stream (fst (finalizeOutput (Hasher_new None None)))) [0..<5]"
  using xof_reader_stream [of "Hasher_new None None" "[3, 2]"] updated.new [of None None]
  by simp

text \<open>
  Claim C6.  The claim is that \<open>newKeyed\<close> throws exactly for keys whose length is not 32.
  A key of 32 bytes that starts at byte offset 1 of its buffer makes it throw as well: the
  32-bit view of the key is made at the key's own offset, which is not a multiple of 4.
\<close>

theorem newKeyed_unaligned_key:
  "newKeyed \<lparr>byteOffset = 1, bytes = replicate 32 0\<rparr> = Inl RangeError"
  by (simp add: newKeyed_def KEY_LEN_def IS_LITTLE_ENDIAN_def uint32_view_def)

text \<open>
  Claim C7.  The message-word indices that the eight G of round \<open>r\<close> read from
  \<open>MSG_ACCESS_ORDER\<close>, for \<open>r\<close> from 0 to 6, are the \<open>r\<close>-fold application of the
  permutation to the identity order; they are the rows R0 to R6 of the specification, and
  \<open>computePermutations\<close> returns the same rows.
\<close>

theorem msg_access_order_rows:
  "map round_msg_indices [0..<7] = map (\<lambda>r. (permute ^^ r) [0..<16]) [0..<7]
   \<and> map round_msg_indices [0..<7] = spec_rows
   \<and> computePermutations = spec_rows"
  by code_simp

text \<open>
  Claim C8.  For the empty input, \<open>hashPureJS\<close> and a new hasher finalized at once both
  return the bytes of one compression: the initial value as chaining value, the all-zero
  block, counter 0, block length 0 and the flags \<open>CHUNK_START OR CHUNK_END OR ROOT\<close>.
  These 32 bytes are \<open>af1349b9 f5f9a1a6 a0404dea 36dcc949 9bcb25c9 adc112b7 cc9a93ca
  e41f3262\<close>.
\<close>

theorem empty_input_digest:
  "hashPureJS \<lparr>byteOffset = off, bytes = []\<rparr> 32 =
     Inr (words_bytes (compress IV 0 (replicate 16 0) 0 False 0 0 (CHUNK_START OR CHUNK_END OR ROOT)))
   \<and> fst (Hasher_finalize (Hasher_new None None) 32) =
     words_bytes (compress IV 0 (replicate 16 0) 0 False 0 0 (CHUNK_START OR CHUNK_END OR ROOT))
   \<and> words_bytes (compress IV 0 (replicate 16 0) 0 False 0 0 (CHUNK_START OR CHUNK_END OR ROOT)) =
     [0xaf, 0x13, 0x49, 0xb9, 0xf5, 0xf9, 0xa1, 0xa6, 0xa0, 0x40, 0x4d, 0xea, 0x36, 0xdc, 0xc9, 0x49, 0x9b, 0xcb, 0x25, 0xc9, 0xad, 0xc1, 0x12, 0xb7, 0xcc, 0x9a, 0x93, 0xca, 0xe4, 0x1f, 0x32, 0x62]"
  unfolding empty_digest_words_def [symmetric]
  by (simp add: hashPureJS_empty Hasher_finalize_empty empty_digest_value empty_digest_bytes)

text \<open>
  Claim C10.  The claim is that the one-shot hash returns what a hasher returns for the same
  input and output length.  For the empty input and 65 bytes of output the hasher returns
  65 bytes, but \<open>hashPureJS\<close> ends in a \<open>RangeError\<close>: it compresses once into 16 words
  and then asks for a view of 65 bytes on these 64.
\<close>

theorem hashPureJS_long_output:
  "hashPureJS (zeros 0) 65 = Inl RangeError
   \<and> (\<exists>h. Hasher_update (Hasher_new None None) (zeros 0) = Some (Inr h)
         \<and> length (fst (Hasher_finalize h 65)) = 65)"
proof -
  have "hashPureJS (zeros 0) 65 = Inl RangeError"
    by (simp add: hashPureJS_def emit_output_def out_array_def length_write_words IS_LITTLE_ENDIAN_def
        zeros_def)
  moreover have "Hasher_update (Hasher_new None None) (zeros 0) = Some (Inr (Hasher_new None None))"
    by (simp add: Hasher_update_def Hasher_update_loop.simps zeros_def)
  moreover have "length (fst (Hasher_finalize h 65)) = 65" for h
    by (simp add: Hasher_finalize_long finalizeXof_reader XofReader_new_read)
  ultimately show ?thesis by simp
qed

end
